theory Spec2Isabelle
  imports Main "HOL-Library.Word" "HOL-Library.Sublist"
begin

unbundle bit_operations_syntax

section \<open>Signals\<close>

text \<open>
  The two exceptions the sources throw: \<open>bailed\<close> (\<open>throw bailed()\<close>, \<open>bail_out\<close>) and
  \<open>interrupted\<close> (\<open>throw interrupted()\<close>). A function that may throw returns
  \<open>error + 'a\<close> (\<open>Inl\<close> the signal, \<open>Inr\<close> the value, \<open>unit\<close> for \<open>void\<close>) next to the
  state it leaves behind: what was written before a throw stays written.
\<close>

datatype error = Bailed | Interrupted

text \<open>Sequencing: the continuation runs only when the first part returned.\<close>

definition and_then ::
  "(error + 'a) \<times> 's \<Rightarrow> ('a \<Rightarrow> 's \<Rightarrow> (error + 'b) \<times> 's) \<Rightarrow> (error + 'b) \<times> 's" where
  "and_then r k = (case r of (Inl e, s) \<Rightarrow> (Inl e, s) | (Inr a, s) \<Rightarrow> k a s)"

section \<open>Helpers of utility.h\<close>

text \<open>
  Modelled from the spec: \<open>replace_all\<close> (utility.h is not part of the sources at hand).
  Every occurrence of \<open>from\<close> in the string is replaced by \<open>to\<close>, scanning left to right and
  continuing behind the replacement.
\<close>

function replace_all :: "string \<Rightarrow> string \<Rightarrow> string \<Rightarrow> string" where
  "replace_all [] from to = []"
| "replace_all (c # cs) from to =
     (if from \<noteq> [] \<and> prefix from (c # cs)
      then to @ replace_all (drop (length from) (c # cs)) from to
      else c # replace_all cs from to)"
  by pat_completeness auto
termination
  by (relation "measure (\<lambda>(s, from, to). length s)") auto

text \<open>
  Modelled from the spec: \<open>join\<close> (utility.h), the elements of \<open>v\<close> separated by \<open>sep\<close>.
\<close>

fun join :: "string list \<Rightarrow> string \<Rightarrow> string" where
  "join [] sep = []"
| "join [x] sep = x"
| "join (x # y # ys) sep = x @ sep @ join (y # ys) sep"

section \<open>Clean flags (task.cpp, lines 14-63)\<close>

text \<open>
  Modelled from the spec: the enumerators of \<open>task::clean\<close> (task.h is not part of the
  sources at hand). The spec calls it a bitmask over the four flags with \<open>nothing\<close> the zero
  value; the values follow the layout of \<open>op::flags\<close> in op.h, one bit per flag in the
  order of declaration. \<open>is_set\<close> and \<open>|=\<close> come from \<open>MOB_ENUM_OPERATORS\<close>.
\<close>

type_synonym clean = "32 word"

definition clean_nothing :: clean where "clean_nothing = 0x00"
definition clean_redownload :: clean where "clean_redownload = 0x01"
definition clean_reextract :: clean where "clean_reextract = 0x02"
definition clean_reconfigure :: clean where "clean_reconfigure = 0x04"
definition clean_rebuild :: clean where "clean_rebuild = 0x08"

definition is_set :: "clean \<Rightarrow> clean \<Rightarrow> bool" where
  "is_set e v = (e AND v = v)"

text \<open>The global options of \<open>conf().global()\<close> that the task engine reads.\<close>

record global_conf =
  g_clean :: bool
  g_fetch :: bool
  g_build :: bool
  g_redownload :: bool
  g_reextract :: bool
  g_reconfigure :: bool
  g_rebuild :: bool

definition to_string :: "clean \<Rightarrow> string" where
  "to_string c =
     (let v0 = [];
          v1 = (if is_set c clean_redownload then v0 @ [''redownload''] else v0);
          v2 = (if is_set c clean_reextract then v1 @ [''reextract''] else v1);
          v3 = (if is_set c clean_reconfigure then v2 @ [''reconfigure''] else v2);
          v4 = (if is_set c clean_rebuild then v3 @ [''rebuild''] else v3)
      in join v4 ''|'')"

definition make_clean_flags :: "global_conf \<Rightarrow> clean" where
  "make_clean_flags g =
     (let c0 = clean_nothing;
          c1 = (if g_redownload g then c0 OR clean_redownload else c0);
          c2 = (if g_reextract g then c1 OR clean_reextract else c1);
          c3 = (if g_reconfigure g then c2 OR clean_reconfigure else c2);
          c4 = (if g_rebuild g then c3 OR clean_rebuild else c3)
      in c4)"

section \<open>Name matching (task.cpp, lines 151-227)\<close>

text \<open>
  \<open>std::tolower\<close> on an \<open>unsigned char\<close>, in the "C" locale the program runs in: the
  letters \<open>A\<close> to \<open>Z\<close> (65 to 90) move to \<open>a\<close> to \<open>z\<close>, every other byte stays.
\<close>

definition tolower :: "char \<Rightarrow> char" where
  "tolower c =
     (let n = (of_char c :: nat)
      in if 65 \<le> n \<and> n \<le> 90 then char_of (n + 32) else c)"

text \<open>
  The loop of \<open>strings_match\<close> at index \<open>i\<close>. It runs only after the sizes were found equal,
  so \<open>b ! i\<close> is in range whenever \<open>a ! i\<close> is.
\<close>

function strings_match_loop :: "string \<Rightarrow> string \<Rightarrow> nat \<Rightarrow> bool" where
  "strings_match_loop a b i =
     (if i < length a then
        if (a ! i = CHR ''-'' \<or> a ! i = CHR ''_'') \<and> (b ! i = CHR ''-'' \<or> b ! i = CHR ''_'')
        then strings_match_loop a b (i + 1)
        else if tolower (a ! i) \<noteq> tolower (b ! i) then False
        else strings_match_loop a b (i + 1)
      else True)"
  by pat_completeness auto
termination
  by (relation "measure (\<lambda>(a, b, i). length a - i)") auto

declare strings_match_loop.simps [simp del]

definition strings_match :: "string \<Rightarrow> string \<Rightarrow> bool" where
  "strings_match a b = (if length a \<noteq> length b then False else strings_match_loop a b 0)"

fun name_matches_string :: "string list \<Rightarrow> string \<Rightarrow> bool" where
  "name_matches_string [] pattern = False"
| "name_matches_string (n # ns) pattern =
     (if strings_match n pattern then True else name_matches_string ns pattern)"

text \<open>
  \<open>std::regex\<close> is the C++ standard library, taken as a parameter: \<open>regex_compile\<close> is the
  constructor \<open>std::regex(pattern, std::regex::icase)\<close>, \<open>None\<close> when it throws
  \<open>std::regex_error\<close>; \<open>regex_match\<close> is \<open>std::regex_match(name, re)\<close>, \<open>None\<close> when it
  throws.
\<close>

record 're regex_lib =
  regex_compile :: "string \<Rightarrow> 're option"
  regex_match :: "string \<Rightarrow> 're \<Rightarrow> bool option"

text \<open>The \<open>for\<close> loop of \<open>name_matches_glob\<close>; \<open>None\<close> when \<open>std::regex_match\<close> throws.\<close>

fun glob_loop :: "'re regex_lib \<Rightarrow> 're \<Rightarrow> string list \<Rightarrow> bool option" where
  "glob_loop rx re [] = Some False"
| "glob_loop rx re (n # ns) =
     (let fixed_name = replace_all n ''_'' ''-''
      in case regex_match rx fixed_name re of
           None \<Rightarrow> None
         | Some True \<Rightarrow> Some True
         | Some False \<Rightarrow> glob_loop rx re ns)"

text \<open>What the \<open>catch\<close> block of \<open>name_matches_glob\<close> writes to \<open>u8cerr\<close>.\<close>

definition bad_glob_message :: "string \<Rightarrow> string" where
  "bad_glob_message pattern =
     ''bad glob '' @ [CHR 0x27] @ pattern @ [CHR 0x27, CHR 0x0A] @
     ''globs are actually bastardized regexes where '' @ [CHR 0x27] @ ''*'' @ [CHR 0x27] @
     '' is replaced by '' @ [CHR 0x27] @ ''.*'' @ [CHR 0x27] @ '', so don'' @ [CHR 0x27] @
     ''t push it'' @ [CHR 0x0A]"

text \<open>
  The result of a name match: the text written to \<open>u8cerr\<close> and either the thrown signal
  or the returned boolean. The \<open>try\<close> block covers the compilation and the loop; whatever
  \<open>std::exception\<close> leaves it is turned into the diagnostic and \<open>bailed\<close>.
\<close>

definition name_matches_glob ::
  "'re regex_lib \<Rightarrow> string list \<Rightarrow> string \<Rightarrow> string \<times> (error + bool)" where
  "name_matches_glob rx nms pattern =
     (let fixed_pattern = pattern;
          fixed_pattern = replace_all fixed_pattern ''*'' ''.*'';
          fixed_pattern = replace_all fixed_pattern ''_'' ''-''
      in case regex_compile rx fixed_pattern of
           None \<Rightarrow> (bad_glob_message pattern, Inl Bailed)
         | Some re \<Rightarrow>
             (case glob_loop rx re nms of
                None \<Rightarrow> (bad_glob_message pattern, Inl Bailed)
              | Some b \<Rightarrow> ([], Inr b)))"

definition name_matches ::
  "'re regex_lib \<Rightarrow> string list \<Rightarrow> string \<Rightarrow> string \<times> (error + bool)" where
  "name_matches rx nms pattern =
     (if CHR ''*'' \<in> set pattern
      then name_matches_glob rx nms pattern
      else ([], Inr (name_matches_string nms pattern)))"

text \<open>Two characters that \<open>strings_match\<close> lets pass at one position.\<close>

definition chars_match :: "char \<Rightarrow> char \<Rightarrow> bool" where
  "chars_match x y =
     ((x \<in> {CHR ''-'', CHR ''_''} \<and> y \<in> {CHR ''-'', CHR ''_''}) \<or> tolower x = tolower y)"

text \<open>A regex library that compiles nothing, for the inputs that never reach it.\<close>

definition no_regex :: "unit regex_lib" where
  "no_regex = \<lparr>regex_compile = (\<lambda>p. None), regex_match = (\<lambda>n re. None)\<rparr>"

section \<open>The task (task.cpp)\<close>

type_synonym thread_id = nat
type_synonym path = "string list"

text \<open>
  A \<open>tool*\<close> is the address of the tool object; the virtual functions of the tool are
  taken as parameters below. A \<open>context\<close> is known by its name. A \<open>fs::path\<close> is the list
  of its components, the empty path the empty list.
\<close>

type_synonym tool = nat

datatype mob_context = Context string

datatype level = L_trace | L_debug | L_info | L_error

datatype reason = R_generic | R_rebuild

text \<open>
  What a run leaves behind outside the task object, in order: the log lines of a context
  or of the global context \<open>gcx()\<close>, the calls of the overridable hooks, the calls into a
  tool, the calls into the task manager, and the calls of \<open>run\<close> of the child at an index of a
  group.
\<close>

datatype event =
    Log mob_context level reason string
  | Log_gcx level reason string
  | Call_do_clean clean
  | Call_do_fetch
  | Call_do_build_and_install
  | Call_tool_run tool mob_context
  | Call_tool_interrupt tool
  | Call_register_task
  | Call_interrupt_all
  | Call_child_run nat

record thread_context =
  tid :: thread_id
  cx :: mob_context

text \<open>
  The members of \<open>task\<close> (a member \<open>x_\<close> of the source is \<open>x_m\<close> here), the
  configuration singleton \<open>conf()\<close> as far as the task reads
  it (\<open>conf().global()\<close> and \<open>conf().task(names).get<bool>("enabled")\<close>), and the events.
\<close>

record task_state =
  names_m :: "string list"
  interrupted_m :: bool
  tools_m :: "tool list"
  contexts_m :: "thread_context list"
  conf_global :: global_conf
  conf_task_enabled :: "string list \<Rightarrow> bool"
  events :: "event list"

text \<open>
  The virtual functions of \<open>task\<close> that a concrete task overrides, and those of the tools
  it runs (tools.h is not part of the sources at hand): any behaviour is allowed for
  them, including raising and changing the task, which is how work done meanwhile by other
  threads shows up. Each gets the calling thread where it runs on one.
\<close>

record virtuals =
  v_enabled :: "task_state \<Rightarrow> bool"
  v_do_clean :: "thread_id \<Rightarrow> clean \<Rightarrow> task_state \<Rightarrow> (error + unit) \<times> task_state"
  v_do_fetch :: "thread_id \<Rightarrow> task_state \<Rightarrow> (error + unit) \<times> task_state"
  v_do_build_and_install :: "thread_id \<Rightarrow> task_state \<Rightarrow> (error + unit) \<times> task_state"
  v_get_source_path :: "task_state \<Rightarrow> path"
  v_get_prebuilt :: "task_state \<Rightarrow> bool"
  v_tool_name :: "tool \<Rightarrow> string"
  v_tool_run :: "tool \<Rightarrow> mob_context \<Rightarrow> task_state \<Rightarrow> (error + unit) \<times> task_state"
  v_patcher :: "string \<Rightarrow> bool \<Rightarrow> path \<Rightarrow> tool"

text \<open>
  \<open>names_m[0]\<close>. Every constructor in the repository passes at least one name, and the
  constructor below refuses an empty list, where the source would read out of range.
\<close>

definition name :: "task_state \<Rightarrow> string" where
  "name s = (case names_m s of [] \<Rightarrow> [] | n # ns \<Rightarrow> n)"

definition names :: "task_state \<Rightarrow> string list" where
  "names s = names_m s"

definition bad :: mob_context where
  "bad = Context ''?''"

fun find_cx :: "thread_id \<Rightarrow> thread_context list \<Rightarrow> mob_context" where
  "find_cx th [] = bad"
| "find_cx th (td # tds) = (if tid td = th then cx td else find_cx th tds)"

definition task_cx :: "thread_id \<Rightarrow> task_state \<Rightarrow> mob_context" where
  "task_cx th s = find_cx th (contexts_m s)"

definition emit :: "event \<Rightarrow> task_state \<Rightarrow> task_state" where
  "emit e s = s\<lparr>events := events s @ [e]\<rparr>"

definition enabled :: "task_state \<Rightarrow> bool" where
  "enabled s = conf_task_enabled s (names s)"

definition do_clean :: "thread_id \<Rightarrow> clean \<Rightarrow> task_state \<Rightarrow> (error + unit) \<times> task_state" where
  "do_clean th c s = (Inr (), s)"

definition do_fetch :: "thread_id \<Rightarrow> task_state \<Rightarrow> (error + unit) \<times> task_state" where
  "do_fetch th s = (Inr (), s)"

definition do_build_and_install :: "thread_id \<Rightarrow> task_state \<Rightarrow> (error + unit) \<times> task_state" where
  "do_build_and_install th s = (Inr (), s)"

definition get_source_path :: "task_state \<Rightarrow> path" where
  "get_source_path s = []"

definition get_prebuilt :: "task_state \<Rightarrow> bool" where
  "get_prebuilt s = False"

text \<open>The functions of the base class, with the tools' side left to the caller.\<close>

definition task_virtuals ::
  "(tool \<Rightarrow> string) \<Rightarrow> (tool \<Rightarrow> mob_context \<Rightarrow> task_state \<Rightarrow> (error + unit) \<times> task_state) \<Rightarrow>
   (string \<Rightarrow> bool \<Rightarrow> path \<Rightarrow> tool) \<Rightarrow> virtuals" where
  "task_virtuals tn tr pt =
     \<lparr>v_enabled = enabled, v_do_clean = do_clean, v_do_fetch = do_fetch,
      v_do_build_and_install = do_build_and_install,
      v_get_source_path = get_source_path, v_get_prebuilt = get_prebuilt,
      v_tool_name = tn, v_tool_run = tr, v_patcher = pt\<rparr>"

definition add_context_for_this_thread :: "thread_id \<Rightarrow> string \<Rightarrow> task_state \<Rightarrow> task_state" where
  "add_context_for_this_thread th nm s =
     s\<lparr>contexts_m := contexts_m s @ [\<lparr>tid = th, cx = Context nm\<rparr>]\<rparr>"

text \<open>The loop of \<open>remove_context_for_this_thread\<close>: the first record of the thread goes.\<close>

fun erase_first :: "thread_id \<Rightarrow> thread_context list \<Rightarrow> thread_context list" where
  "erase_first th [] = []"
| "erase_first th (td # tds) = (if tid td = th then tds else td # erase_first th tds)"

definition remove_context_for_this_thread :: "thread_id \<Rightarrow> task_state \<Rightarrow> task_state" where
  "remove_context_for_this_thread th s = s\<lparr>contexts_m := erase_first th (contexts_m s)\<rparr>"

text \<open>
  The constructor, run by thread \<open>th\<close> with the configuration it finds. The call of
  \<open>task_manager::register_task\<close> is an event.
\<close>

definition task_ctor ::
  "thread_id \<Rightarrow> string list \<Rightarrow> global_conf \<Rightarrow> (string list \<Rightarrow> bool) \<Rightarrow> task_state option" where
  "task_ctor th nms g en =
     (if nms = [] then None
      else
        let s = \<lparr>names_m = nms, interrupted_m = False, tools_m = [], contexts_m = [],
                 conf_global = g, conf_task_enabled = en, events = []\<rparr>;
            s = add_context_for_this_thread th (name s) s
        in Some (if name s \<noteq> ''parallel'' then emit Call_register_task s else s))"

definition check_interrupted :: "task_state \<Rightarrow> (error + unit) \<times> task_state" where
  "check_interrupted s = (if interrupted_m s then (Inl Interrupted, s) else (Inr (), s))"

text \<open>
  Modelled from the spec: \<open>tool::interrupt\<close> (tools.h is not part of the sources at hand)
  asks the tool to cancel the external operation it wraps; it returns and leaves the task
  as it is. The call is recorded, one event for each entry of \<open>tools_m\<close> in order.
\<close>

definition interrupt :: "task_state \<Rightarrow> (error + unit) \<times> task_state" where
  "interrupt s =
     (let s = s\<lparr>interrupted_m := True\<rparr>;
          s = fold (\<lambda>t s. emit (Call_tool_interrupt t) s) (tools_m s) s
      in (Inr (), s))"

text \<open>
  \<open>run_tool_impl\<close>, to which \<open>run_tool\<close> of task.h hands its tool. The guard \<open>g\<close> erases
  the tool when the scope is left, by return or by a throw; \<open>std::erase\<close> removes every
  entry equal to the pointer.
\<close>

definition run_tool_impl ::
  "virtuals \<Rightarrow> thread_id \<Rightarrow> tool \<Rightarrow> task_state \<Rightarrow> (error + unit) \<times> task_state" where
  "run_tool_impl vt th t s =
     (let s = s\<lparr>tools_m := tools_m s @ [t]\<rparr>;
          s = emit (Log (task_cx th s) L_debug R_generic (''running tool '' @ v_tool_name vt t)) s;
          (r, s) =
            and_then (check_interrupted s) (\<lambda>_ s.
            and_then (v_tool_run vt t (task_cx th s) (emit (Call_tool_run t (task_cx th s)) s)) (\<lambda>_ s.
            check_interrupted s))
      in (r, s\<lparr>tools_m := removeAll t (tools_m s)\<rparr>))"

definition clean_task :: "virtuals \<Rightarrow> thread_id \<Rightarrow> task_state \<Rightarrow> (error + unit) \<times> task_state" where
  "clean_task vt th s =
     (if \<not> g_clean (conf_global s) then (Inr (), s)
      else if \<not> v_enabled vt s
      then (Inr (), emit (Log (task_cx th s) L_debug R_generic
                ''cleaning (skipping, task disabled)'') s)
      else
        let cf = make_clean_flags (conf_global s)
        in if cf \<noteq> clean_nothing
           then
             let s = emit (Log (task_cx th s) L_info R_rebuild
                       (''cleaning ('' @ to_string cf @ '')'')) s
             in v_do_clean vt th cf (emit (Call_do_clean cf) s)
           else (Inr (), s))"

definition fetch :: "virtuals \<Rightarrow> thread_id \<Rightarrow> task_state \<Rightarrow> (error + unit) \<times> task_state" where
  "fetch vt th s =
     (if \<not> g_fetch (conf_global s) then (Inr (), s)
      else if \<not> v_enabled vt s
      then (Inr (), emit (Log (task_cx th s) L_debug R_generic
                ''fetching (skipping, task disabled)'') s)
      else
        let s = emit (Log (task_cx th s) L_info R_generic ''fetching'') s
        in and_then (v_do_fetch vt th (emit Call_do_fetch s)) (\<lambda>_ s.
           and_then (check_interrupted s) (\<lambda>_ s.
           if v_get_source_path vt s \<noteq> []
           then
             let s = emit (Log (task_cx th s) L_debug R_generic ''patching'') s
             in run_tool_impl vt th
                  (v_patcher vt (name s) (v_get_prebuilt vt s) (v_get_source_path vt s)) s
           else (Inr (), s))))"

definition build_and_install ::
  "virtuals \<Rightarrow> thread_id \<Rightarrow> task_state \<Rightarrow> (error + unit) \<times> task_state" where
  "build_and_install vt th s =
     (if \<not> g_build (conf_global s) then (Inr (), s)
      else if \<not> v_enabled vt s
      then (Inr (), emit (Log (task_cx th s) L_debug R_generic
                ''build and install (skipping, task disabled)'') s)
      else
        let s = emit (Log (task_cx th s) L_info R_generic ''build and install'') s
        in v_do_build_and_install vt th (emit Call_do_build_and_install s))"

definition run :: "virtuals \<Rightarrow> thread_id \<Rightarrow> task_state \<Rightarrow> (error + unit) \<times> task_state" where
  "run vt th s =
     (if \<not> v_enabled vt s
      then (Inr (), emit (Log (task_cx th s) L_debug R_generic ''task is disabled'') s)
      else
        let s = emit (Log (task_cx th s) L_info R_generic ''running task'') s
        in and_then (clean_task vt th s) (\<lambda>_ s.
           and_then (check_interrupted s) (\<lambda>_ s.
           and_then (fetch vt th s) (\<lambda>_ s.
           and_then (check_interrupted s) (\<lambda>_ s.
           and_then (build_and_install vt th s) (\<lambda>_ s.
           check_interrupted s))))))"

text \<open>
  Modelled from the spec: \<open>task_manager::interrupt_all\<close> (task_manager.h is not part of
  the sources at hand) broadcasts \<open>interrupt()\<close> to every registered task. This task is
  registered unless its name is \<open>parallel\<close> (see the constructor); what the broadcast does
  to the rest of the program, of type \<open>'w\<close>, is the parameter \<open>others\<close>.
\<close>

definition interrupt_all :: "('w \<Rightarrow> 'w) \<Rightarrow> task_state \<times> 'w \<Rightarrow> task_state \<times> 'w" where
  "interrupt_all others sw =
     (case sw of (s, w) \<Rightarrow>
        let s = emit Call_interrupt_all s;
            s = (if name s \<noteq> ''parallel'' then snd (interrupt s) else s)
        in (s, others w))"

text \<open>
  \<open>running_from_thread\<close>, called on thread \<open>th\<close>. The function \<open>f\<close> is a closure: it may
  work on the task and on the rest of the program. The guard removes the context when the
  \<open>try\<close> block is left, before a handler runs; both handlers end in a normal return.
\<close>

definition running_from_thread ::
  "('w \<Rightarrow> 'w) \<Rightarrow> thread_id \<Rightarrow> string \<Rightarrow>
   (task_state \<times> 'w \<Rightarrow> (error + unit) \<times> (task_state \<times> 'w)) \<Rightarrow>
   task_state \<times> 'w \<Rightarrow> (error + unit) \<times> (task_state \<times> 'w)" where
  "running_from_thread others th thread_name f sw =
     (case sw of (s, w) \<Rightarrow>
        (case f (add_context_for_this_thread th thread_name s, w) of (r, (s, w)) \<Rightarrow>
           let s = remove_context_for_this_thread th s
           in case r of
                Inr u \<Rightarrow> (Inr (), (s, w))
              | Inl Bailed \<Rightarrow>
                  (Inr (), interrupt_all others
                     (emit (Log_gcx L_error R_generic
                        (name s @ '' bailed out, interrupting all tasks'')) s, w))
              | Inl Interrupted \<Rightarrow> (Inr (), (s, w))))"

text \<open>
  The way out of \<open>running_from_thread\<close> once \<open>f\<close> has returned or thrown with outcome \<open>r\<close>:
  the guard, then the handler of the signal if there is one.
\<close>

definition leave_thread ::
  "('w \<Rightarrow> 'w) \<Rightarrow> thread_id \<Rightarrow> error + unit \<Rightarrow> task_state \<times> 'w \<Rightarrow>
   (error + unit) \<times> (task_state \<times> 'w)" where
  "leave_thread others th r sw =
     (case sw of (s, w) \<Rightarrow>
        let s = remove_context_for_this_thread th s
        in case r of
             Inr u \<Rightarrow> (Inr (), (s, w))
           | Inl Bailed \<Rightarrow>
               (Inr (), interrupt_all others
                  (emit (Log_gcx L_error R_generic
                     (name s @ '' bailed out, interrupting all tasks'')) s, w))
           | Inl Interrupted \<Rightarrow> (Inr (), (s, w)))"

section \<open>The threads at work for a task\<close>

text \<open>
  \<open>running_from_thread\<close> is the body of a thread started for it: by the thread pool in
  \<open>task::parallel\<close> (task.cpp, line 291) and by \<open>start_thread\<close> in \<open>parallel_tasks::run\<close>
  (lines 505 to 507). A thread that is started is none of the live threads, which are the
  thread \<open>thc\<close> that constructed the task and the threads \<open>ws\<close> at work. What happens to the
  registry over time is a list of actions: a started thread begins its work, which is
  \<open>add_context_for_this_thread\<close> under a name, or a thread at work ends it, which is
  \<open>remove_context_for_this_thread\<close> run by the guard. An action that the threads cannot
  take is refused (\<open>None\<close>).
\<close>

datatype registry_action = Thread_begins thread_id string | Thread_ends thread_id

fun registry_do ::
  "thread_id \<Rightarrow> registry_action \<Rightarrow> task_state \<times> thread_id list \<Rightarrow>
   (task_state \<times> thread_id list) option" where
  "registry_do thc (Thread_begins th nm) (s, ws) =
     (if th = thc \<or> th \<in> set ws then None
      else Some (add_context_for_this_thread th nm s, th # ws))"
| "registry_do thc (Thread_ends th) (s, ws) =
     (if th \<in> set ws then Some (remove_context_for_this_thread th s, remove1 th ws)
      else None)"

fun registry_run ::
  "thread_id \<Rightarrow> registry_action list \<Rightarrow> task_state \<times> thread_id list \<Rightarrow>
   (task_state \<times> thread_id list) option" where
  "registry_run thc [] c = Some c"
| "registry_run thc (a # as) c =
     (case registry_do thc a c of None \<Rightarrow> None | Some c' \<Rightarrow> registry_run thc as c')"

section \<open>The parallel group (task.cpp, lines 468-526)\<close>

text \<open>
  A child is a \<open>task\<close> of any dynamic type: its state is of type \<open>'c\<close> and its virtual
  functions \<open>name\<close>, \<open>run\<close> and \<open>interrupt\<close> are the parameter.
\<close>

record 'c child_ops =
  c_name :: "'c \<Rightarrow> string"
  c_run :: "thread_id \<Rightarrow> 'c \<Rightarrow> (error + unit) \<times> 'c"
  c_interrupt :: "'c \<Rightarrow> 'c"

record 'c parallel_tasks_state =
  base :: task_state
  children_m :: "'c list"
  threads_m :: "thread_id list"

definition parallel_tasks_ctor ::
  "thread_id \<Rightarrow> global_conf \<Rightarrow> (string list \<Rightarrow> bool) \<Rightarrow> 'c parallel_tasks_state option" where
  "parallel_tasks_ctor th g en =
     (case task_ctor th [''parallel''] g en of
        None \<Rightarrow> None
      | Some b \<Rightarrow> Some \<lparr>base = b, children_m = [], threads_m = []\<rparr>)"

definition parallel_tasks_enabled :: "'c parallel_tasks_state \<Rightarrow> bool" where
  "parallel_tasks_enabled p = True"

definition add_task :: "'c \<Rightarrow> 'c parallel_tasks_state \<Rightarrow> 'c parallel_tasks_state" where
  "add_task t p = p\<lparr>children_m := children_m p @ [t]\<rparr>"

definition join_threads :: "'c parallel_tasks_state \<Rightarrow> 'c parallel_tasks_state" where
  "join_threads p = p\<lparr>threads_m := []\<rparr>"

text \<open>
  The loop of \<open>parallel_tasks::run\<close>: for each child \<open>start_thread\<close> hands back a thread,
  \<open>new_tid i\<close> the id of the one for child \<open>i\<close>, which is pushed to \<open>threads_m\<close>.
\<close>

definition start_threads ::
  "(nat \<Rightarrow> thread_id) \<Rightarrow> 'c parallel_tasks_state \<Rightarrow> 'c parallel_tasks_state" where
  "start_threads new_tid p =
     fold (\<lambda>i p. p\<lparr>threads_m := threads_m p @ [new_tid i]\<rparr>) [0..<length (children_m p)] p"

text \<open>
  How far the thread of a child has come in its body
  \<open>running_from_thread(t->name(), [&]{ t->run(); })\<close>: not begun; at work, its context
  added; returned from the child's \<open>run\<close> with the outcome; finished, the context removed
  and the handler through.
\<close>

datatype progress = Not_begun | At_work | Ran "error + unit" | Finished

text \<open>
  The started threads run at the same time, so the order of their steps is not fixed by
  the program: it is the schedule, a list of child indices, each entry letting the thread
  of that child take its next step. The steps of a thread are those of
  \<open>running_from_thread\<close> of the group itself: \<open>add_context_for_this_thread\<close> with the
  child's name, the child's \<open>run\<close>, and \<open>leave_thread\<close>. The child's \<open>run\<close> works on the
  child alone and is one step. The registered tasks that a broadcast from the handler
  reaches from here are the children. A thread that has finished has no step left
  (\<open>None\<close>).
\<close>

definition thread_step ::
  "'c child_ops \<Rightarrow> (nat \<Rightarrow> thread_id) \<Rightarrow> nat \<Rightarrow>
   'c parallel_tasks_state \<times> progress list \<Rightarrow> ('c parallel_tasks_state \<times> progress list) option" where
  "thread_step ops new_tid i c =
     (case c of (p, prog) \<Rightarrow>
        if i < length prog \<and> i < length (children_m p) then
          (case prog ! i of
             Not_begun \<Rightarrow>
               Some (p\<lparr>base := add_context_for_this_thread (new_tid i)
                                 (c_name ops (children_m p ! i)) (base p)\<rparr>,
                     prog[i := At_work])
           | At_work \<Rightarrow>
               (case c_run ops (new_tid i) (children_m p ! i) of (r, c') \<Rightarrow>
                  Some (p\<lparr>base := emit (Call_child_run i) (base p),
                          children_m := (children_m p)[i := c']\<rparr>,
                        prog[i := Ran r]))
           | Ran r \<Rightarrow>
               (case leave_thread (map (c_interrupt ops)) (new_tid i) r
                       (base p, children_m p) of
                  (u, (b, cs)) \<Rightarrow> Some (p\<lparr>base := b, children_m := cs\<rparr>, prog[i := Finished]))
           | Finished \<Rightarrow> None)
        else None)"

fun run_threads ::
  "'c child_ops \<Rightarrow> (nat \<Rightarrow> thread_id) \<Rightarrow> nat list \<Rightarrow>
   'c parallel_tasks_state \<times> progress list \<Rightarrow> ('c parallel_tasks_state \<times> progress list) option" where
  "run_threads ops new_tid [] c = Some c"
| "run_threads ops new_tid (i # sched) c =
     (case thread_step ops new_tid i c of
        None \<Rightarrow> None
      | Some c' \<Rightarrow> run_threads ops new_tid sched c')"

text \<open>
  \<open>parallel_tasks::run\<close> under a schedule: the threads are started, take their steps, and
  \<open>join\<close> returns once every thread has finished. The pushes to \<open>threads_m\<close> touch nothing
  that a thread reads, so they are taken first. A schedule that asks a finished thread
  for a step, or that leaves a thread unfinished, is not a schedule of this run (\<open>None\<close>).
\<close>

definition parallel_tasks_run ::
  "'c child_ops \<Rightarrow> (nat \<Rightarrow> thread_id) \<Rightarrow> nat list \<Rightarrow> 'c parallel_tasks_state \<Rightarrow>
   ((error + unit) \<times> 'c parallel_tasks_state) option" where
  "parallel_tasks_run ops new_tid sched p =
     (let p = start_threads new_tid p
      in case run_threads ops new_tid sched
                (p, replicate (length (children_m p)) Not_begun) of
           None \<Rightarrow> None
         | Some (p, prog) \<Rightarrow>
             if list_all (\<lambda>x. x = Finished) prog then Some (Inr (), join_threads p) else None)"

text \<open>
  The schedules in which each of the \<open>n\<close> threads takes its three steps and nothing else
  happens.
\<close>

definition complete_schedule :: "nat \<Rightarrow> nat list \<Rightarrow> bool" where
  "complete_schedule n sched =
     (list_all (\<lambda>i. i < n) sched \<and> list_all (\<lambda>i. count_list sched i = 3) [0..<n])"

definition parallel_tasks_interrupt ::
  "'c child_ops \<Rightarrow> 'c parallel_tasks_state \<Rightarrow> 'c parallel_tasks_state" where
  "parallel_tasks_interrupt ops p = p\<lparr>children_m := map (c_interrupt ops) (children_m p)\<rparr>"

section \<open>The git tool (git.cpp)\<close>

text \<open>
  The enumerators of \<open>git::ops\<close> as the \<open>switch\<close> of \<open>do_run\<close> names them (tools.h is not
  part of the sources at hand): \<open>clone_or_pull2\<close> is the one that leads to
  \<open>do_clone_or_pull\<close>; \<open>unknown_op\<close> stands for every value the \<open>switch\<close> leaves to
  \<open>default\<close>.
\<close>

datatype ops = clone | pull | clone_or_pull2 | unknown_op

text \<open>The members of \<open>git\<close> that \<open>do_run\<close> reads (\<open>x_\<close> of the source is \<open>x_m\<close>).\<close>

record git =
  op_m :: ops
  url_m :: string
  branch_m :: string
  where_m :: path

text \<open>
  A \<open>process\<close> as the builder calls describe it: \<open>arg(v)\<close>, \<open>arg(name, v)\<close>, the same two
  with \<open>process::log_quiet\<close>, and \<open>arg(path)\<close>.
\<close>

datatype arg =
    Arg string
  | Arg_value string string
  | Arg_log_quiet string
  | Arg_value_log_quiet string string
  | Arg_path path

record process =
  p_binary :: path
  p_stderr_level :: level
  p_args :: "arg list"
  p_cwd :: "path option"

text \<open>
  The events of a run: a trace line, a trace line whose format string has a path for its
  argument, the two forms of \<open>bail_out\<close>, and the calls that leave the tool.
\<close>

datatype git_event =
    Git_trace reason string
  | Git_trace_path reason string path
  | Git_bail_out string
  | Git_bail_out_op string ops
  | Call_delete_directory path
  | Call_execute process

text \<open>
  What the tool works on: the paths that exist, the switches \<open>conf::redownload()\<close> and
  \<open>conf::reextract()\<close>, \<open>conf::tool_by_name("git")\<close>, and the events in order.
\<close>

record git_world =
  fs :: "path list"
  conf_redownload :: bool
  conf_reextract :: bool
  conf_git_binary :: path
  git_events :: "git_event list"

text \<open>
  The two operations the tool hands to others, taken as parameters, each from the paths
  that exist to its outcome and the paths that exist afterwards:
  \<open>op::delete_directory(cx, p, op::optional)\<close> (declared in op.h, defined elsewhere) and
  the external process that \<open>execute_and_join\<close> runs and waits for.
\<close>

record git_env =
  env_delete_directory :: "path \<Rightarrow> path list \<Rightarrow> (error + unit) \<times> path list"
  env_execute :: "process \<Rightarrow> path list \<Rightarrow> (error + unit) \<times> path list"

text \<open>
  Modelled from the spec: \<open>op::delete_directory\<close> with \<open>op::optional\<close> (op.cpp is not part
  of the sources at hand): the directory and all it holds are gone; a directory that is
  not there is not an error.
\<close>

definition delete_directory :: "path \<Rightarrow> path list \<Rightarrow> (error + unit) \<times> path list" where
  "delete_directory p ps = (Inr (), filter (\<lambda>q. \<not> prefix p q) ps)"

text \<open>
  Modelled from the spec: \<open>bail_out\<close> of the tool and of its context (tools.h is not part of
  the sources at hand) reports the message and throws \<open>bailed\<close>: the fatal configuration
  error.
\<close>

definition bail_out :: "string \<Rightarrow> git_world \<Rightarrow> (error + unit) \<times> git_world" where
  "bail_out msg w = (Inl Bailed, w\<lparr>git_events := git_events w @ [Git_bail_out msg]\<rparr>)"

definition bail_out_op :: "string \<Rightarrow> ops \<Rightarrow> git_world \<Rightarrow> (error + unit) \<times> git_world" where
  "bail_out_op msg v w = (Inl Bailed, w\<lparr>git_events := git_events w @ [Git_bail_out_op msg v]\<rparr>)"

definition git_trace :: "reason \<Rightarrow> string \<Rightarrow> git_world \<Rightarrow> git_world" where
  "git_trace r msg w = w\<lparr>git_events := git_events w @ [Git_trace r msg]\<rparr>"

text \<open>
  Modelled from the spec: \<open>execute_and_join\<close> of \<open>basic_process_runner\<close> runs the process
  assigned to \<open>process_\<close> and waits for it; an outcome other than zero is fatal and leaves
  by a throw.
\<close>

definition execute_and_join :: "git_env \<Rightarrow> process \<Rightarrow> git_world \<Rightarrow> (error + unit) \<times> git_world" where
  "execute_and_join env p w =
     (let w = w\<lparr>git_events := git_events w @ [Call_execute p]\<rparr>
      in case env_execute env p (fs w) of (r, ps) \<Rightarrow> (r, w\<lparr>fs := ps\<rparr>))"

definition clone_process :: "git \<Rightarrow> git_world \<Rightarrow> process" where
  "clone_process g w =
     \<lparr>p_binary = conf_git_binary w, p_stderr_level = L_trace,
      p_args = [Arg ''clone'', Arg ''--recurse-submodules'', Arg_value ''--depth'' ''1'',
                Arg_value ''--branch'' (branch_m g), Arg_log_quiet ''--quiet'',
                Arg_value_log_quiet ''-c'' ''advice.detachedHead=false'',
                Arg (url_m g), Arg_path (where_m g)],
      p_cwd = None\<rparr>"

definition pull_process :: "git \<Rightarrow> git_world \<Rightarrow> process" where
  "pull_process g w =
     \<lparr>p_binary = conf_git_binary w, p_stderr_level = L_trace,
      p_args = [Arg ''pull'', Arg ''--recurse-submodules'', Arg_log_quiet ''--quiet'',
                Arg (url_m g), Arg (branch_m g)],
      p_cwd = Some (where_m g)\<rparr>"

definition do_clone :: "git_env \<Rightarrow> git \<Rightarrow> git_world \<Rightarrow> (error + bool) \<times> git_world" where
  "do_clone env g w =
     (let dot_git = where_m g @ [''.git'']
      in if dot_git \<in> set (fs w)
         then (Inr False,
               w\<lparr>git_events := git_events w @
                  [Git_trace_path R_generic ''not cloning, {} exists'' dot_git]\<rparr>)
         else and_then (execute_and_join env (clone_process g w) w) (\<lambda>_ w. (Inr True, w)))"

definition do_pull :: "git_env \<Rightarrow> git \<Rightarrow> git_world \<Rightarrow> (error + unit) \<times> git_world" where
  "do_pull env g w = execute_and_join env (pull_process g w) w"

definition do_clone_or_pull :: "git_env \<Rightarrow> git \<Rightarrow> git_world \<Rightarrow> (error + unit) \<times> git_world" where
  "do_clone_or_pull env g w =
     and_then (do_clone env g w) (\<lambda>cloned w. if \<not> cloned then do_pull env g w else (Inr (), w))"

text \<open>The step of \<open>do_run\<close> between the check of the parameters and the \<open>switch\<close>.\<close>

definition delete_if_forced :: "git_env \<Rightarrow> git \<Rightarrow> git_world \<Rightarrow> (error + unit) \<times> git_world" where
  "delete_if_forced env g w =
     (if conf_redownload w \<or> conf_reextract w
      then
        let w = git_trace R_rebuild ''deleting directory controlled by git'' w;
            w = w\<lparr>git_events := git_events w @ [Call_delete_directory (where_m g)]\<rparr>
        in case env_delete_directory env (where_m g) (fs w) of (r, ps) \<Rightarrow> (r, w\<lparr>fs := ps\<rparr>)
      else (Inr (), w))"

definition do_run :: "git_env \<Rightarrow> git \<Rightarrow> git_world \<Rightarrow> (error + unit) \<times> git_world" where
  "do_run env g w =
     and_then (if url_m g = [] \<or> where_m g = []
               then bail_out ''git missing parameters'' w else (Inr (), w)) (\<lambda>_ w.
     and_then (delete_if_forced env g w) (\<lambda>_ w.
     case op_m g of
       clone \<Rightarrow> and_then (do_clone env g w) (\<lambda>_ w. (Inr (), w))
     | pull \<Rightarrow> do_pull env g w
     | clone_or_pull2 \<Rightarrow> do_clone_or_pull env g w
     | unknown_op \<Rightarrow> bail_out_op ''git unknown op {}'' (op_m g) w))"

text \<open>
  For the properties: the external processes and the deletions among the events, and which
  operation a process is.
\<close>

fun executions :: "git_event list \<Rightarrow> process list" where
  "executions [] = []"
| "executions (Call_execute p # es) = p # executions es"
| "executions (e # es) = executions es"

fun deletions :: "git_event list \<Rightarrow> path list" where
  "deletions [] = []"
| "deletions (Call_delete_directory p # es) = p # deletions es"
| "deletions (e # es) = deletions es"

definition is_clone :: "process \<Rightarrow> bool" where
  "is_clone p = (case p_args p of Arg a # as \<Rightarrow> a = ''clone'' | _ \<Rightarrow> False)"

definition is_pull :: "process \<Rightarrow> bool" where
  "is_pull p = (case p_args p of Arg a # as \<Rightarrow> a = ''pull'' | _ \<Rightarrow> False)"

section \<open>Concrete inputs\<close>

definition example_git :: git where
  "example_git =
     \<lparr>op_m = clone_or_pull2, url_m = ''https://example/repo.git'', branch_m = ''main'',
      where_m = [''build'', ''di'']\<rparr>"

definition example_env :: git_env where
  "example_env =
     \<lparr>env_delete_directory = delete_directory, env_execute = (\<lambda>p ps. (Inr (), ps))\<rparr>"

text \<open>An empty destination directory, and one that holds a checkout.\<close>

definition empty_destination :: "bool \<Rightarrow> git_world" where
  "empty_destination redl =
     \<lparr>fs = [[''build''], [''build'', ''di'']], conf_redownload = redl, conf_reextract = False,
      conf_git_binary = [''git''], git_events = []\<rparr>"

definition checked_out_destination :: "bool \<Rightarrow> git_world" where
  "checked_out_destination redl =
     \<lparr>fs = [[''build''], [''build'', ''di''], [''build'', ''di'', ''.git'']],
      conf_redownload = redl, conf_reextract = False,
      conf_git_binary = [''git''], git_events = []\<rparr>"

definition example_conf :: global_conf where
  "example_conf =
     \<lparr>g_clean = True, g_fetch = True, g_build = True, g_redownload = True,
      g_reextract = False, g_reconfigure = False, g_rebuild = True\<rparr>"

text \<open>
  The task \<open>boost_di\<close> of boost_di.cpp as thread 0 has constructed it, enabled or not by
  its configuration, with the tools in \<open>ts\<close> running.
\<close>

definition every_task :: "bool \<Rightarrow> string list \<Rightarrow> bool" where
  "every_task en nms = en"

definition example_task :: "bool \<Rightarrow> tool list \<Rightarrow> task_state" where
  "example_task en ts =
     \<lparr>names_m = [''boost-di'', ''boostdi'', ''boost_di''], interrupted_m = False,
      tools_m = ts, contexts_m = [\<lparr>tid = 0, cx = Context ''boost-di''\<rparr>],
      conf_global = example_conf, conf_task_enabled = every_task en,
      events = [Call_register_task]\<rparr>"

text \<open>The base class with tools that return at once, and with tools that bail out.\<close>

definition example_virtuals :: virtuals where
  "example_virtuals = task_virtuals (\<lambda>t. ''tool'') (\<lambda>t c s. (Inr (), s)) (\<lambda>n p r. 7)"

definition failing_virtuals :: virtuals where
  "failing_virtuals = task_virtuals (\<lambda>t. ''tool'') (\<lambda>t c s. (Inl Bailed, s)) (\<lambda>n p r. 7)"

section \<open>What the properties observe\<close>

text \<open>The hook calls among the events.\<close>

fun is_hook_call :: "event \<Rightarrow> bool" where
  "is_hook_call (Call_do_clean c) = True"
| "is_hook_call Call_do_fetch = True"
| "is_hook_call Call_do_build_and_install = True"
| "is_hook_call e = False"

text \<open>The indices of the children whose \<open>run\<close> was called, among the events.\<close>

fun child_runs :: "event list \<Rightarrow> nat list" where
  "child_runs [] = []"
| "child_runs (Call_child_run i # es) = i # child_runs es"
| "child_runs (e # es) = child_runs es"

text \<open>
  An operation keeps the interruption flag when it never leaves it false after finding it
  true; the overridable functions do when each of them does.
\<close>

definition keeps_flag :: "(task_state \<Rightarrow> (error + 'a) \<times> task_state) \<Rightarrow> bool" where
  "keeps_flag f = (\<forall>s. interrupted_m s \<longrightarrow> interrupted_m (snd (f s)))"

definition virtuals_keep_flag :: "virtuals \<Rightarrow> bool" where
  "virtuals_keep_flag vt =
     ((\<forall>th c. keeps_flag (v_do_clean vt th c)) \<and> (\<forall>th. keeps_flag (v_do_fetch vt th))
      \<and> (\<forall>th. keeps_flag (v_do_build_and_install vt th))
      \<and> (\<forall>t c. keeps_flag (v_tool_run vt t c)))"

text \<open>Functions to run on a thread: one that is interrupted at once, one that bails out.\<close>

definition interrupted_at_once ::
  "task_state \<times> unit \<Rightarrow> (error + unit) \<times> (task_state \<times> unit)" where
  "interrupted_at_once sw = (Inl Interrupted, sw)"

definition bails_at_once ::
  "task_state \<times> unit \<Rightarrow> (error + unit) \<times> (task_state \<times> unit)" where
  "bails_at_once sw = (Inl Bailed, sw)"

text \<open>
  The example task after thread 1 began and ended its work and while thread 2 is at work.
\<close>

definition example_at_work :: task_state where
  "example_at_work =
     (example_task True [])\<lparr>contexts_m :=
        [\<lparr>tid = 0, cx = Context ''boost-di''\<rparr>, \<lparr>tid = 2, cx = Context ''two''\<rparr>]\<rparr>"

text \<open>The registry of contexts holds at most one record for a thread.\<close>

definition one_per_thread :: "task_state \<Rightarrow> bool" where
  "one_per_thread s = distinct (map tid (contexts_m s))"

section \<open>A concrete group\<close>

text \<open>Children that are plain tasks with the functions \<open>vt\<close>.\<close>

definition task_child_ops :: "virtuals \<Rightarrow> task_state child_ops" where
  "task_child_ops vt =
     \<lparr>c_name = name, c_run = run vt, c_interrupt = (\<lambda>s. snd (interrupt s))\<rparr>"

text \<open>
  A group constructed by thread 0 under a configuration that disables every task, with
  two children, and worker threads 1, 2 and so on.
\<close>

definition example_group :: "task_state parallel_tasks_state" where
  "example_group =
     \<lparr>base =
        \<lparr>names_m = [''parallel''], interrupted_m = False, tools_m = [],
         contexts_m = [\<lparr>tid = 0, cx = Context ''parallel''\<rparr>],
         conf_global = example_conf, conf_task_enabled = every_task False, events = []\<rparr>,
      children_m = [example_task True [], example_task False []],
      threads_m = []\<rparr>"

text \<open>
  For the properties of the group: whether the child's \<open>run\<close> of a thread has returned,
  and how many steps the thread has taken.
\<close>

fun has_run :: "progress \<Rightarrow> bool" where
  "has_run Not_begun = False"
| "has_run At_work = False"
| "has_run (Ran r) = True"
| "has_run Finished = True"

fun steps_done :: "progress \<Rightarrow> nat" where
  "steps_done Not_begun = 0"
| "steps_done At_work = 1"
| "steps_done (Ran r) = 2"
| "steps_done Finished = 3"

text \<open>
  A child is driven when it is what its \<open>run\<close> on its thread made of it, if that has
  returned, and the child as it was before otherwise, in both cases apart from the
  interrupts broadcast meanwhile; the runs are noted when the events hold the indices of
  the children whose \<open>run\<close> has returned, each once.
\<close>

definition child_driven ::
  "'c child_ops \<Rightarrow> (nat \<Rightarrow> thread_id) \<Rightarrow> 'c list \<Rightarrow> nat \<Rightarrow> progress \<Rightarrow> 'c \<Rightarrow> bool" where
  "child_driven ops new_tid cs0 i prg c =
     (if has_run prg
      then \<exists>k1 k2. c = (c_interrupt ops ^^ k2)
                         (snd (c_run ops (new_tid i) ((c_interrupt ops ^^ k1) (cs0 ! i))))
      else \<exists>k. c = (c_interrupt ops ^^ k) (cs0 ! i))"

definition driven ::
  "'c child_ops \<Rightarrow> (nat \<Rightarrow> thread_id) \<Rightarrow> 'c list \<Rightarrow> 'c parallel_tasks_state \<times> progress list \<Rightarrow> bool" where
  "driven ops new_tid cs0 c =
     (case c of (p, prog) \<Rightarrow>
        length (children_m p) = length cs0 \<and> length prog = length cs0
        \<and> (\<forall>i<length cs0. child_driven ops new_tid cs0 i (prog ! i) (children_m p ! i)))"

definition runs_noted :: "event list \<Rightarrow> nat \<Rightarrow> 'c parallel_tasks_state \<times> progress list \<Rightarrow> bool" where
  "runs_noted evs n c =
     (case c of (p, prog) \<Rightarrow>
        \<exists>order. child_runs (events (base p)) = child_runs evs @ order \<and> distinct order
                \<and> set order = {i. i < n \<and> has_run (prog ! i)})"

text \<open>What a run of the example group leaves to see.\<close>

definition observe_run ::
  "((error + unit) \<times> task_state parallel_tasks_state) option \<Rightarrow>
   ((error + unit) \<times> nat list \<times> thread_id list \<times> event list list) option" where
  "observe_run x =
     map_option (\<lambda>(r, p). (r, child_runs (events (base p)), threads_m p,
        map events (children_m p))) x"

section \<open>Basic facts about events\<close>

lemma task_cx_tools: "task_cx th (s\<lparr>tools_m := ts\<rparr>) = task_cx th s"
  by (simp add: task_cx_def)

lemma task_cx_emit: "task_cx th (emit e s) = task_cx th s"
  by (simp add: task_cx_def emit_def)

lemma tools_emit: "tools_m (emit e s) = tools_m s"
  by (simp add: emit_def)

lemma interrupted_emit: "interrupted_m (emit e s) = interrupted_m s"
  by (simp add: emit_def)

lemma contexts_emit: "contexts_m (emit e s) = contexts_m s"
  by (simp add: emit_def)

lemmas event_facts = task_cx_tools task_cx_emit tools_emit interrupted_emit contexts_emit

section \<open>Properties of the clean flags\<close>

text \<open>
  C5. For every assignment of the four switches \<open>make_clean_flags\<close> is the bitwise OR of
  the flags whose switch is on (\<open>nothing\<close> when none is), a flag is set in the result
  exactly when its switch is on, and \<open>to_string\<close> of the result joins with \<open>|\<close> the names
  of the flags that are on, in the order redownload, reextract, reconfigure, rebuild.
  With redownload and rebuild on and the other two off, the result is
  \<open>redownload | rebuild\<close> and its string is \<open>redownload|rebuild\<close>.
\<close>

theorem make_clean_flags_composition:
  "make_clean_flags g =
     fold (OR) (map snd (filter fst
       [(g_redownload g, clean_redownload), (g_reextract g, clean_reextract),
        (g_reconfigure g, clean_reconfigure), (g_rebuild g, clean_rebuild)])) clean_nothing
   \<and> is_set (make_clean_flags g) clean_redownload = g_redownload g
   \<and> is_set (make_clean_flags g) clean_reextract = g_reextract g
   \<and> is_set (make_clean_flags g) clean_reconfigure = g_reconfigure g
   \<and> is_set (make_clean_flags g) clean_rebuild = g_rebuild g
   \<and> to_string (make_clean_flags g) =
       join (map snd (filter fst
         [(g_redownload g, ''redownload''), (g_reextract g, ''reextract''),
          (g_reconfigure g, ''reconfigure''), (g_rebuild g, ''rebuild'')])) ''|''
   \<and> make_clean_flags (g\<lparr>g_redownload := True, g_reextract := False,
        g_reconfigure := False, g_rebuild := True\<rparr>) = clean_redownload OR clean_rebuild
   \<and> to_string (make_clean_flags (g\<lparr>g_redownload := True, g_reextract := False,
        g_reconfigure := False, g_rebuild := True\<rparr>)) = ''redownload|rebuild''
   \<and> make_clean_flags (g\<lparr>g_redownload := False, g_reextract := False,
        g_reconfigure := False, g_rebuild := False\<rparr>) = clean_nothing"
  by (cases "g_redownload g"; cases "g_reextract g"; cases "g_reconfigure g";
      cases "g_rebuild g")
     (simp_all add: make_clean_flags_def to_string_def is_set_def clean_nothing_def
        clean_redownload_def clean_reextract_def clean_reconfigure_def clean_rebuild_def)

section \<open>Properties of name matching\<close>

lemma all_from_split:
  "i < n \<Longrightarrow> (\<forall>j. i \<le> j \<and> j < n \<longrightarrow> P j) = (P i \<and> (\<forall>j. i + 1 \<le> j \<and> j < n \<longrightarrow> P j))"
  for i n :: nat
  apply (rule iffI)
   apply simp
  apply (intro allI impI)
  subgoal for j by (cases "j = i") auto
  done

lemma strings_match_loop_iff:
  "strings_match_loop a b i = (\<forall>j. i \<le> j \<and> j < length a \<longrightarrow> chars_match (a ! j) (b ! j))"
proof (induction a b i rule: strings_match_loop.induct)
  case (1 a b i)
  show ?case
  proof (cases "i < length a")
    case False
    then show ?thesis by (auto simp add: strings_match_loop.simps [of a b i])
  next
    case True
    note split = all_from_split [OF True, of "\<lambda>j. chars_match (a ! j) (b ! j)"]
    show ?thesis
    proof (cases "chars_match (a ! i) (b ! i)")
      case False
      then show ?thesis
        using True split
        by (auto simp add: strings_match_loop.simps [of a b i] chars_match_def)
    next
      case ok: True
      have "strings_match_loop a b i = strings_match_loop a b (i + 1)"
        using True ok by (auto simp add: strings_match_loop.simps [of a b i] chars_match_def)
      also have "\<dots> = (\<forall>j. i + 1 \<le> j \<and> j < length a \<longrightarrow> chars_match (a ! j) (b ! j))"
        using "1.IH" True ok by (auto simp add: chars_match_def)
      finally show ?thesis using split ok by simp
    qed
  qed
qed

lemma strings_match_iff:
  "strings_match a b =
     (length a = length b \<and> (\<forall>i<length a. chars_match (a ! i) (b ! i)))"
  by (simp add: strings_match_def strings_match_loop_iff)

lemma name_matches_string_iff:
  "name_matches_string nms pattern = (\<exists>a\<in>set nms. strings_match a pattern)"
  by (induction nms) auto

text \<open>
  C3. For every alias list and every pattern without \<open>*\<close>, \<open>name_matches\<close> returns, without
  writing a diagnostic and without raising, whether some alias has the length of the
  pattern and agrees with it at every position, where two characters agree when both are
  a dash or an underscore or when they are equal after \<open>tolower\<close>.
\<close>

theorem name_matches_exact:
  assumes "CHR ''*'' \<notin> set pattern"
  shows "name_matches rx nms pattern =
           ([], Inr (\<exists>a\<in>set nms. length a = length pattern \<and>
                       (\<forall>i<length a.
                          (a ! i \<in> {CHR ''-'', CHR ''_''} \<and> pattern ! i \<in> {CHR ''-'', CHR ''_''})
                          \<or> tolower (a ! i) = tolower (pattern ! i))))"
  using assms
  by (simp add: name_matches_def name_matches_string_iff strings_match_iff chars_match_def)

lemma boost_di_matches:
  "name_matches no_regex [''boost-di'', ''boostdi'', ''boost_di''] ''Boost_DI'' = ([], Inr True)"
  by code_simp

lemma boost_di2_no_match:
  "name_matches no_regex [''boost-di''] ''boost-di2'' = ([], Inr False)"
  by code_simp

theorem name_matches_exact_witness:
  "CHR ''*'' \<notin> set ''Boost_DI''
   \<and> name_matches no_regex [''boost-di'', ''boostdi'', ''boost_di''] ''Boost_DI'' = ([], Inr True)
   \<and> (\<exists>a\<in>set [''boost-di'', ''boostdi'', ''boost_di'']. length a = length ''Boost_DI'' \<and>
         (\<forall>i<length a.
            (a ! i \<in> {CHR ''-'', CHR ''_''} \<and> ''Boost_DI'' ! i \<in> {CHR ''-'', CHR ''_''})
            \<or> tolower (a ! i) = tolower (''Boost_DI'' ! i)))"
proof -
  have star: "CHR ''*'' \<notin> set ''Boost_DI''" by simp
  show ?thesis
    using star boost_di_matches
      name_matches_exact [OF star, of no_regex "[''boost-di'', ''boostdi'', ''boost_di'']"]
    by simp
qed

text \<open>
  C4. For every pattern with a \<open>*\<close> that does not compile, once each \<open>*\<close> is replaced by
  \<open>.*\<close> and each underscore by a dash, \<open>name_matches\<close> writes the diagnostic to
  \<open>u8cerr\<close> and raises \<open>bailed\<close>; it does not return false.
\<close>

theorem name_matches_bad_glob:
  assumes "CHR ''*'' \<in> set pattern"
    and "regex_compile rx (replace_all (replace_all pattern ''*'' ''.*'') ''_'' ''-'') = None"
  shows "name_matches rx nms pattern = (bad_glob_message pattern, Inl Bailed)
         \<and> bad_glob_message pattern \<noteq> []
         \<and> snd (name_matches rx nms pattern) \<noteq> Inr False"
  using assms by (simp add: name_matches_def name_matches_glob_def bad_glob_message_def)

lemma fixed_pattern_example:
  "replace_all (replace_all ''boost_(*'' ''*'' ''.*'') ''_'' ''-'' = ''boost-(.*''"
  by code_simp

theorem name_matches_bad_glob_witness:
  "CHR ''*'' \<in> set ''boost_(*''
   \<and> regex_compile no_regex (replace_all (replace_all ''boost_(*'' ''*'' ''.*'') ''_'' ''-'') = None
   \<and> name_matches no_regex [''boost-di'', ''boostdi'', ''boost_di''] ''boost_(*'' =
       (bad_glob_message ''boost_(*'', Inl Bailed)"
proof -
  have star: "CHR ''*'' \<in> set ''boost_(*''" by simp
  have unbalanced:
    "regex_compile no_regex (replace_all (replace_all ''boost_(*'' ''*'' ''.*'') ''_'' ''-'') = None"
    by (simp add: no_regex_def)
  show ?thesis
    using star unbalanced
      name_matches_bad_glob [OF star unbalanced, of "[''boost-di'', ''boostdi'', ''boost_di'']"]
    by simp
qed

section \<open>Properties of the git tool\<close>

lemma executions_append: "executions (xs @ ys) = executions xs @ executions ys"
  by (induction xs rule: executions.induct) simp_all

lemma deletions_append: "deletions (xs @ ys) = deletions xs @ deletions ys"
  by (induction xs rule: deletions.induct) simp_all

text \<open>
  C2. A run of the git tool whose URL or whose destination is empty raises \<open>bailed\<close> from
  the check of the parameters, having reported \<open>git missing parameters\<close>: nothing was
  deleted, no external process was run, the paths are as before, and the \<open>switch\<close> on
  the mode was not reached.
\<close>

theorem do_run_missing_parameters:
  assumes "url_m g = [] \<or> where_m g = []"
  shows "do_run env g w =
           (Inl Bailed, w\<lparr>git_events := git_events w @ [Git_bail_out ''git missing parameters'']\<rparr>)
         \<and> deletions (git_events (snd (do_run env g w))) = deletions (git_events w)
         \<and> executions (git_events (snd (do_run env g w))) = executions (git_events w)
         \<and> fs (snd (do_run env g w)) = fs w"
  using assms
  by (simp add: do_run_def and_then_def bail_out_def executions_append deletions_append)

theorem do_run_missing_parameters_witness:
  "(url_m (example_git\<lparr>url_m := []\<rparr>) = [] \<or> where_m (example_git\<lparr>url_m := []\<rparr>) = [])
   \<and> do_run example_env (example_git\<lparr>url_m := []\<rparr>) (checked_out_destination True) =
       (Inl Bailed, (checked_out_destination True)\<lparr>git_events := [Git_bail_out ''git missing parameters'']\<rparr>)
   \<and> (url_m (example_git\<lparr>where_m := []\<rparr>) = [] \<or> where_m (example_git\<lparr>where_m := []\<rparr>) = [])
   \<and> do_run example_env (example_git\<lparr>where_m := []\<rparr>) (checked_out_destination True) =
       (Inl Bailed, (checked_out_destination True)\<lparr>git_events := [Git_bail_out ''git missing parameters'']\<rparr>)"
proof -
  have h1: "url_m (example_git\<lparr>url_m := []\<rparr>) = [] \<or> where_m (example_git\<lparr>url_m := []\<rparr>) = []"
    by simp
  have h2: "url_m (example_git\<lparr>where_m := []\<rparr>) = [] \<or> where_m (example_git\<lparr>where_m := []\<rparr>) = []"
    by simp
  show ?thesis
    using h1 h2
      do_run_missing_parameters [OF h1, of example_env "checked_out_destination True"]
      do_run_missing_parameters [OF h2, of example_env "checked_out_destination True"]
    by (simp add: checked_out_destination_def)
qed

lemma delete_if_forced_executions:
  "executions (git_events (snd (delete_if_forced env g w))) = executions (git_events w)"
  by (simp add: delete_if_forced_def git_trace_def executions_append split: prod.splits)

lemma execute_and_join_events:
  "git_events (snd (execute_and_join env p w)) = git_events w @ [Call_execute p]"
  by (simp add: execute_and_join_def split: prod.splits)

lemma do_clone_or_pull_absent:
  assumes "where_m g @ [''.git''] \<notin> set (fs w)"
  shows "git_events (snd (do_clone_or_pull env g w)) = git_events w @ [Call_execute (clone_process g w)]"
proof -
  obtain r w' where e: "execute_and_join env (clone_process g w) w = (r, w')"
    by (cases "execute_and_join env (clone_process g w) w")
  have "git_events w' = git_events w @ [Call_execute (clone_process g w)]"
    using execute_and_join_events [of env "clone_process g w" w] e by simp
  then show ?thesis
    using assms e by (cases r) (simp_all add: do_clone_or_pull_def do_clone_def and_then_def)
qed

lemma do_clone_or_pull_present:
  assumes "where_m g @ [''.git''] \<in> set (fs w)"
  shows "git_events (snd (do_clone_or_pull env g w)) =
           git_events w @
             [Git_trace_path R_generic ''not cloning, {} exists'' (where_m g @ [''.git'']),
              Call_execute (pull_process g w)]"
proof -
  let ?w = "w\<lparr>git_events := git_events w @
              [Git_trace_path R_generic ''not cloning, {} exists'' (where_m g @ [''.git''])]\<rparr>"
  have p: "pull_process g ?w = pull_process g w"
    by (simp add: pull_process_def)
  have "do_clone_or_pull env g w = execute_and_join env (pull_process g ?w) ?w"
    using assms by (simp add: do_clone_or_pull_def do_clone_def and_then_def do_pull_def)
  then show ?thesis
    using execute_and_join_events [of env "pull_process g ?w" ?w] p
    by (simp add: git_trace_def)
qed

text \<open>
  C1, as amended. In a run in clone-or-pull mode with a URL and a destination, the marker
  \<open>.git\<close> of the destination is looked up after the deletion that the switches
  redownload and reextract force. If the deletion raises, the run ends there and no
  external process is run. Otherwise, if the marker is absent then, the run executes the
  clone process and nothing else; if it is present then, the run executes the pull
  process and nothing else. With both switches off nothing is deleted, and the marker as
  it was when the run began decides.
\<close>

theorem do_run_clone_or_pull:
  assumes "op_m g = clone_or_pull2" and "url_m g \<noteq> []" and "where_m g \<noteq> []"
  shows "(\<forall>e w1. delete_if_forced env g w = (Inl e, w1) \<longrightarrow>
            do_run env g w = (Inl e, w1) \<and> executions (git_events w1) = executions (git_events w))
       \<and> (\<forall>w1. delete_if_forced env g w = (Inr (), w1) \<longrightarrow>
            (where_m g @ [''.git''] \<notin> set (fs w1) \<longrightarrow>
               executions (git_events (snd (do_run env g w))) =
                 executions (git_events w) @ [clone_process g w1])
          \<and> (where_m g @ [''.git''] \<in> set (fs w1) \<longrightarrow>
               executions (git_events (snd (do_run env g w))) =
                 executions (git_events w) @ [pull_process g w1]))
       \<and> (\<not> conf_redownload w \<and> \<not> conf_reextract w \<longrightarrow> delete_if_forced env g w = (Inr (), w))
       \<and> is_clone (clone_process g w') \<and> \<not> is_pull (clone_process g w')
       \<and> is_pull (pull_process g w') \<and> \<not> is_clone (pull_process g w')"
proof (intro conjI allI impI)
  fix e w1 assume d: "delete_if_forced env g w = (Inl e, w1)"
  show "do_run env g w = (Inl e, w1)"
    using assms d by (simp add: do_run_def and_then_def)
  show "executions (git_events w1) = executions (git_events w)"
    using delete_if_forced_executions [of env g w] d by simp
next
  fix w1 assume d: "delete_if_forced env g w = (Inr (), w1)"
  have run: "do_run env g w = do_clone_or_pull env g w1"
    using assms d by (simp add: do_run_def and_then_def)
  have ex: "executions (git_events w1) = executions (git_events w)"
    using delete_if_forced_executions [of env g w] d by simp
  {
    assume "where_m g @ [''.git''] \<notin> set (fs w1)"
    then show "executions (git_events (snd (do_run env g w))) =
                 executions (git_events w) @ [clone_process g w1]"
      using run ex do_clone_or_pull_absent [of g w1 env] by (simp add: executions_append)
  next
    assume "where_m g @ [''.git''] \<in> set (fs w1)"
    then show "executions (git_events (snd (do_run env g w))) =
                 executions (git_events w) @ [pull_process g w1]"
      using run ex do_clone_or_pull_present [of g w1 env] by (simp add: executions_append)
  }
next
  assume "\<not> conf_redownload w \<and> \<not> conf_reextract w"
  then show "delete_if_forced env g w = (Inr (), w)"
    by (simp add: delete_if_forced_def)
qed (simp_all add: is_clone_def is_pull_def clone_process_def pull_process_def)

lemma run_on_empty_destination:
  "executions (git_events (snd (do_run example_env example_git (empty_destination False)))) =
     [clone_process example_git (empty_destination False)]"
  by (simp add: do_run_def and_then_def delete_if_forced_def do_clone_or_pull_def do_clone_def
      execute_and_join_def example_env_def example_git_def empty_destination_def clone_process_def)

lemma run_on_checked_out_destination:
  "executions (git_events (snd (do_run example_env example_git (checked_out_destination False)))) =
     [pull_process example_git (checked_out_destination False)]"
  by (simp add: do_run_def and_then_def delete_if_forced_def do_clone_or_pull_def do_clone_def
      do_pull_def git_trace_def Let_def
      execute_and_join_def example_env_def example_git_def checked_out_destination_def pull_process_def)

theorem do_run_clone_or_pull_witness:
  "op_m example_git = clone_or_pull2 \<and> url_m example_git \<noteq> [] \<and> where_m example_git \<noteq> []
   \<and> delete_if_forced example_env example_git (empty_destination False) =
       (Inr (), empty_destination False)
   \<and> where_m example_git @ [''.git''] \<notin> set (fs (empty_destination False))
   \<and> executions (git_events (snd (do_run example_env example_git (empty_destination False)))) =
       [clone_process example_git (empty_destination False)]
   \<and> delete_if_forced example_env example_git (checked_out_destination False) =
       (Inr (), checked_out_destination False)
   \<and> where_m example_git @ [''.git''] \<in> set (fs (checked_out_destination False))
   \<and> executions (git_events (snd (do_run example_env example_git (checked_out_destination False)))) =
       [pull_process example_git (checked_out_destination False)]"
proof -
  have h: "op_m example_git = clone_or_pull2" "url_m example_git \<noteq> []" "where_m example_git \<noteq> []"
    by (simp_all add: example_git_def)
  have off: "\<not> conf_redownload (empty_destination False) \<and> \<not> conf_reextract (empty_destination False)"
    "\<not> conf_redownload (checked_out_destination False) \<and> \<not> conf_reextract (checked_out_destination False)"
    by (simp_all add: empty_destination_def checked_out_destination_def)
  have m: "where_m example_git @ [''.git''] \<notin> set (fs (empty_destination False))"
    "where_m example_git @ [''.git''] \<in> set (fs (checked_out_destination False))"
    by (simp_all add: example_git_def empty_destination_def checked_out_destination_def)
  have e: "executions (git_events (empty_destination False)) = []"
    "executions (git_events (checked_out_destination False)) = []"
    by (simp_all add: empty_destination_def checked_out_destination_def)
  note a = do_run_clone_or_pull [OF h, of example_env "empty_destination False"]
  note b = do_run_clone_or_pull [OF h, of example_env "checked_out_destination False"]
  show ?thesis
    using h off m e a b by simp
qed

text \<open>
  C1 as stated fails: with the switch redownload on, a run on a destination that holds the
  marker deletes the destination first and then executes the clone, not the pull.
\<close>

theorem do_run_clone_or_pull_counterexample:
  "op_m example_git = clone_or_pull2 \<and> url_m example_git \<noteq> [] \<and> where_m example_git \<noteq> []
   \<and> where_m example_git @ [''.git''] \<in> set (fs (checked_out_destination True))
   \<and> map is_clone (executions (git_events
        (snd (do_run example_env example_git (checked_out_destination True))))) = [True]
   \<and> map is_pull (executions (git_events
        (snd (do_run example_env example_git (checked_out_destination True))))) = [False]"
  by (simp add: do_run_def and_then_def delete_if_forced_def do_clone_or_pull_def do_clone_def
      do_pull_def git_trace_def delete_directory_def is_clone_def is_pull_def Let_def
      execute_and_join_def example_env_def example_git_def checked_out_destination_def
      clone_process_def pull_process_def)

section \<open>Properties of the task\<close>

lemma example_task_constructed:
  "task_ctor 0 [''boost-di'', ''boostdi'', ''boost_di''] example_conf (every_task en) =
     Some (example_task en [])"
  by (simp add: task_ctor_def example_task_def name_def add_context_for_this_thread_def emit_def)

text \<open>
  C6. When \<open>enabled()\<close> of a task reports false, \<open>run\<close> writes the debug line
  \<open>task is disabled\<close> and returns without raising: whatever the hooks are, none of
  \<open>do_clean\<close>, \<open>do_fetch\<close> and \<open>do_build_and_install\<close> is called, and the task is
  otherwise as before.
\<close>

theorem run_disabled:
  assumes "\<not> v_enabled vt s"
  shows "run vt th s =
           (Inr (), emit (Log (task_cx th s) L_debug R_generic ''task is disabled'') s)
         \<and> fst (run vt th s) = Inr ()
         \<and> filter is_hook_call (events (snd (run vt th s))) = filter is_hook_call (events s)"
  using assms by (simp add: run_def emit_def)

theorem run_disabled_witness:
  "\<not> v_enabled example_virtuals (example_task False [])
   \<and> run example_virtuals 0 (example_task False []) =
       (Inr (), (example_task False [])\<lparr>events := [Call_register_task,
          Log (Context ''boost-di'') L_debug R_generic ''task is disabled'']\<rparr>)"
proof -
  have h: "\<not> v_enabled example_virtuals (example_task False [])"
    by (simp add: example_virtuals_def task_virtuals_def enabled_def example_task_def
        every_task_def)
  show ?thesis
    using h run_disabled [OF h, of 0]
    by (simp add: emit_def task_cx_def example_task_def)
qed

text \<open>
  C7. In \<open>run_tool_impl\<close> the tool is in \<open>tools_\<close> when its \<open>run\<close> is called, and is in
  \<open>tools_\<close> no more when \<open>run_tool_impl\<close> is left, however it is left. If the task is
  interrupted when \<open>run_tool_impl\<close> is called, \<open>interrupted\<close> is raised and the result
  does not depend on the tool: its \<open>run\<close> is not called. Otherwise the tool's \<open>run\<close> is
  called; a signal it raises is passed on, and when it returns with the task interrupted
  meanwhile, \<open>interrupted\<close> is raised.
\<close>

theorem run_tool_impl_registration:
  "(let s1 = emit (Log (task_cx th s) L_debug R_generic (''running tool '' @ v_tool_name vt t))
               (s\<lparr>tools_m := tools_m s @ [t]\<rparr>);
        s2 = emit (Call_tool_run t (task_cx th s)) s1
    in t \<notin> set (tools_m (snd (run_tool_impl vt th t s)))
       \<and> (interrupted_m s \<longrightarrow>
            run_tool_impl vt th t s = (Inl Interrupted, s1\<lparr>tools_m := removeAll t (tools_m s)\<rparr>))
       \<and> (\<not> interrupted_m s \<longrightarrow>
            t \<in> set (tools_m s2)
            \<and> run_tool_impl vt th t s =
                (case v_tool_run vt t (task_cx th s) s2 of
                   (Inl e, s3) \<Rightarrow> (Inl e, s3\<lparr>tools_m := removeAll t (tools_m s3)\<rparr>)
                 | (Inr u, s3) \<Rightarrow>
                     (if interrupted_m s3 then Inl Interrupted else Inr (),
                      s3\<lparr>tools_m := removeAll t (tools_m s3)\<rparr>))))"
proof -
  define s1 where "s1 = emit (Log (task_cx th s) L_debug R_generic (''running tool '' @ v_tool_name vt t))
               (s\<lparr>tools_m := tools_m s @ [t]\<rparr>)"
  define s2 where "s2 = emit (Call_tool_run t (task_cx th s)) s1"
  have cx1: "task_cx th s1 = task_cx th s" and int1: "interrupted_m s1 = interrupted_m s"
    and tools1: "tools_m s1 = tools_m s @ [t]"
    by (simp_all add: event_facts s1_def)
  obtain r s3 where tr: "v_tool_run vt t (task_cx th s) s2 = (r, s3)"
    by (cases "v_tool_run vt t (task_cx th s) s2")
  have unfold: "run_tool_impl vt th t s =
      (case and_then (check_interrupted s1) (\<lambda>_ s.
            and_then (v_tool_run vt t (task_cx th s) (emit (Call_tool_run t (task_cx th s)) s)) (\<lambda>_ s.
            check_interrupted s)) of (r, s') \<Rightarrow> (r, s'\<lparr>tools_m := removeAll t (tools_m s')\<rparr>))"
    by (simp add: event_facts run_tool_impl_def Let_def s1_def)
  have a: "interrupted_m s \<Longrightarrow>
      run_tool_impl vt th t s = (Inl Interrupted, s1\<lparr>tools_m := removeAll t (tools_m s)\<rparr>)"
    by (simp add: event_facts unfold and_then_def check_interrupted_def int1 tools1)
  have b: "\<not> interrupted_m s \<Longrightarrow> run_tool_impl vt th t s =
                (case v_tool_run vt t (task_cx th s) s2 of
                   (Inl e, s3) \<Rightarrow> (Inl e, s3\<lparr>tools_m := removeAll t (tools_m s3)\<rparr>)
                 | (Inr u, s3) \<Rightarrow>
                     (if interrupted_m s3 then Inl Interrupted else Inr (),
                      s3\<lparr>tools_m := removeAll t (tools_m s3)\<rparr>))"
    using tr
    by (cases r)
      (simp_all add: event_facts unfold and_then_def check_interrupted_def int1 cx1 s2_def [symmetric])
  have c: "t \<notin> set (tools_m (snd (run_tool_impl vt th t s)))"
  proof (cases "interrupted_m s")
    case True
    then show ?thesis using a by (simp add: event_facts)
  next
    case False
    then show ?thesis using b tr by (cases r) (simp_all add: event_facts)
  qed
  have d: "t \<in> set (tools_m s2)"
    by (simp add: event_facts s2_def tools1)
  show ?thesis
    unfolding Let_def s1_def [symmetric] s2_def [symmetric]
    using a b c d by blast
qed

theorem run_tool_impl_registration_witness:
  "interrupted_m ((example_task True [])\<lparr>interrupted_m := True\<rparr>)
   \<and> run_tool_impl example_virtuals 0 7 ((example_task True [])\<lparr>interrupted_m := True\<rparr>) =
       (Inl Interrupted, (example_task True [])\<lparr>interrupted_m := True,
          events := [Call_register_task,
            Log (Context ''boost-di'') L_debug R_generic ''running tool tool'']\<rparr>)
   \<and> \<not> interrupted_m (example_task True [])
   \<and> run_tool_impl failing_virtuals 0 7 (example_task True []) =
       (Inl Bailed, (example_task True [])\<lparr>
          events := [Call_register_task,
            Log (Context ''boost-di'') L_debug R_generic ''running tool tool'',
            Call_tool_run 7 (Context ''boost-di'')]\<rparr>)"
proof -
  have h1: "interrupted_m ((example_task True [])\<lparr>interrupted_m := True\<rparr>)" by simp
  have h2: "\<not> interrupted_m (example_task True [])" by (simp add: example_task_def)
  show ?thesis
    using h1 h2
      run_tool_impl_registration [where t = 7 and th = 0 and vt = example_virtuals
        and s = "(example_task True [])\<lparr>interrupted_m := True\<rparr>"]
      run_tool_impl_registration [where t = 7 and th = 0 and vt = failing_virtuals
        and s = "example_task True []"]
    by (simp add: Let_def emit_def task_cx_def example_task_def example_virtuals_def
        failing_virtuals_def task_virtuals_def)
qed

lemma fold_emit_events:
  "fold (\<lambda>t s. emit (g t) s) ts s = s\<lparr>events := events s @ map g ts\<rparr>"
  by (induction ts arbitrary: s) (simp_all add: emit_def)

lemma snd_interrupt:
  "snd (interrupt s) =
     s\<lparr>interrupted_m := True, events := events s @ map Call_tool_interrupt (tools_m s)\<rparr>"
  by (simp add: interrupt_def Let_def fold_emit_events)

lemma count_tool_interrupt:
  "count_list (map Call_tool_interrupt ts) (Call_tool_interrupt t) = count_list ts t"
  by (induction ts) simp_all

lemma and_then_keeps:
  assumes "interrupted_m (snd r)"
    and "\<And>a s. interrupted_m s \<Longrightarrow> interrupted_m (snd (k a s))"
  shows "interrupted_m (snd (and_then r k))"
  using assms by (cases r) (auto simp add: and_then_def split: sum.splits)

lemma check_interrupted_keeps: "interrupted_m s \<Longrightarrow> interrupted_m (snd (check_interrupted s))"
  by (simp add: check_interrupted_def)

lemma run_tool_impl_keeps:
  assumes "virtuals_keep_flag vt" and "interrupted_m s"
  shows "interrupted_m (snd (run_tool_impl vt th t s))"
  using assms(2)
  by (simp add: event_facts run_tool_impl_def Let_def and_then_def check_interrupted_def)

lemma clean_task_keeps:
  assumes "virtuals_keep_flag vt" and "interrupted_m s"
  shows "interrupted_m (snd (clean_task vt th s))"
  using assms
  by (simp add: event_facts clean_task_def Let_def virtuals_keep_flag_def keeps_flag_def)

lemma fetch_keeps:
  assumes "virtuals_keep_flag vt" and "interrupted_m s"
  shows "interrupted_m (snd (fetch vt th s))"
proof -
  have hook: "\<And>s. interrupted_m s \<Longrightarrow> interrupted_m (snd (v_do_fetch vt th s))"
    using assms(1) by (simp add: event_facts virtuals_keep_flag_def keeps_flag_def)
  show ?thesis
    unfolding fetch_def Let_def
    using assms(2)
    by (auto simp add: event_facts intro!: and_then_keeps hook check_interrupted_keeps run_tool_impl_keeps [OF assms(1)])
qed

lemma build_and_install_keeps:
  assumes "virtuals_keep_flag vt" and "interrupted_m s"
  shows "interrupted_m (snd (build_and_install vt th s))"
  using assms
  by (simp add: event_facts build_and_install_def Let_def virtuals_keep_flag_def keeps_flag_def)

lemma run_keeps:
  assumes "virtuals_keep_flag vt" and "interrupted_m s"
  shows "interrupted_m (snd (run vt th s))"
  unfolding run_def Let_def
  using assms(2)
  by (auto simp add: event_facts intro!: and_then_keeps check_interrupted_keeps clean_task_keeps [OF assms(1)]
      fetch_keeps [OF assms(1)] build_and_install_keeps [OF assms(1)])

lemma interrupt_all_flag:
  "interrupted_m s \<Longrightarrow> interrupted_m (fst (interrupt_all others (s, w)))"
  by (simp add: event_facts interrupt_all_def Let_def snd_interrupt)

lemma running_from_thread_keeps:
  assumes "interrupted_m s"
    and "\<And>s' w'. interrupted_m s' \<Longrightarrow> interrupted_m (fst (snd (f (s', w'))))"
  shows "interrupted_m (fst (snd (running_from_thread others th nm f (s, w))))"
proof -
  obtain r s' w' where f: "f (add_context_for_this_thread th nm s, w) = (r, (s', w'))"
    by (metis prod.exhaust)
  have "interrupted_m (add_context_for_this_thread th nm s)"
    using assms(1) by (simp add: event_facts add_context_for_this_thread_def)
  then have "interrupted_m s'"
    using assms(2) [of "add_context_for_this_thread th nm s" w] f by (simp add: event_facts)
  then have rm: "interrupted_m (remove_context_for_this_thread th s')"
    by (simp add: event_facts remove_context_for_this_thread_def)
  show ?thesis
  proof (cases r)
    case (Inr u)
    then show ?thesis using f rm by (simp add: event_facts running_from_thread_def)
  next
    case (Inl e)
    let ?s = "emit (Log_gcx L_error R_generic
                (name (remove_context_for_this_thread th s') @
                 '' bailed out, interrupting all tasks''))
                (remove_context_for_this_thread th s')"
    have "interrupted_m ?s"
      using rm by (simp add: event_facts)
    then have "interrupted_m (fst (interrupt_all others (?s, w')))"
      by (rule interrupt_all_flag)
    then show ?thesis
      using Inl f rm
      by (cases e) (simp_all add: event_facts running_from_thread_def Let_def)
  qed
qed

text \<open>
  C8. \<open>interrupt\<close> never raises; it sets the interruption flag and forwards \<open>interrupt\<close> to
  the tools in \<open>tools_\<close> at the time of the call, once for each entry, and changes
  nothing else. A second call leaves the flag true and forwards once more to the same
  tools. No operation of the task resets the flag: \<open>check_interrupted\<close>, the two
  operations on the contexts, \<open>run_tool_impl\<close>, \<open>clean_task\<close>, \<open>fetch\<close>,
  \<open>build_and_install\<close>, \<open>run\<close> and \<open>running_from_thread\<close> leave a flag that is true
  true, as long as the hooks, the tools and the function run on the thread, which are not
  the task's own code, do.
\<close>

theorem interrupt_idempotent:
  "fst (interrupt s) = Inr ()
   \<and> snd (interrupt s) =
       s\<lparr>interrupted_m := True, events := events s @ map Call_tool_interrupt (tools_m s)\<rparr>
   \<and> interrupted_m (snd (interrupt s))
   \<and> (\<forall>t. count_list (map Call_tool_interrupt (tools_m s)) (Call_tool_interrupt t) =
            count_list (tools_m s) t)
   \<and> fst (interrupt (snd (interrupt s))) = Inr ()
   \<and> snd (interrupt (snd (interrupt s))) =
       (snd (interrupt s))\<lparr>events :=
          events (snd (interrupt s)) @ map Call_tool_interrupt (tools_m s)\<rparr>
   \<and> interrupted_m (snd (interrupt (snd (interrupt s))))
   \<and> (interrupted_m s \<longrightarrow>
        interrupted_m (snd (check_interrupted s))
        \<and> interrupted_m (add_context_for_this_thread th nm s)
        \<and> interrupted_m (remove_context_for_this_thread th s))
   \<and> (virtuals_keep_flag vt \<and> interrupted_m s \<longrightarrow>
        interrupted_m (snd (run_tool_impl vt th t s))
        \<and> interrupted_m (snd (clean_task vt th s))
        \<and> interrupted_m (snd (fetch vt th s))
        \<and> interrupted_m (snd (build_and_install vt th s))
        \<and> interrupted_m (snd (run vt th s)))
   \<and> (interrupted_m s \<and> (\<forall>s' w'. interrupted_m s' \<longrightarrow> interrupted_m (fst (snd (f (s', w')))))
        \<longrightarrow> interrupted_m (fst (snd (running_from_thread others th nm f (s, w)))))"
proof -
  have one: "fst (interrupt s) = Inr ()" for s
    by (simp add: interrupt_def Let_def)
  have twice: "snd (interrupt (snd (interrupt s))) =
       (snd (interrupt s))\<lparr>events :=
          events (snd (interrupt s)) @ map Call_tool_interrupt (tools_m s)\<rparr>"
    by (simp add: snd_interrupt)
  have local: "interrupted_m s \<Longrightarrow>
        interrupted_m (snd (check_interrupted s))
        \<and> interrupted_m (add_context_for_this_thread th nm s)
        \<and> interrupted_m (remove_context_for_this_thread th s)"
    by (simp add: check_interrupted_def add_context_for_this_thread_def
        remove_context_for_this_thread_def)
  have rft: "interrupted_m s \<and> (\<forall>s' w'. interrupted_m s' \<longrightarrow> interrupted_m (fst (snd (f (s', w')))))
        \<Longrightarrow> interrupted_m (fst (snd (running_from_thread others th nm f (s, w))))"
    using running_from_thread_keeps [of s f others th nm w] by blast
  show ?thesis
    using one twice local rft snd_interrupt [of s] count_tool_interrupt
      run_tool_impl_keeps [of vt s th t] clean_task_keeps [of vt s th] fetch_keeps [of vt s th]
      build_and_install_keeps [of vt s th] run_keeps [of vt s th]
    by (simp add: snd_interrupt)
qed

lemma example_virtuals_keep_flag: "virtuals_keep_flag example_virtuals"
  by (simp add: virtuals_keep_flag_def keeps_flag_def example_virtuals_def task_virtuals_def
      do_clean_def do_fetch_def do_build_and_install_def)

theorem interrupt_idempotent_witness:
  "virtuals_keep_flag example_virtuals
   \<and> interrupted_m (snd (interrupt (example_task True [3, 5])))
   \<and> snd (interrupt (example_task True [3, 5])) =
       (example_task True [3, 5])\<lparr>interrupted_m := True,
          events := [Call_register_task, Call_tool_interrupt 3, Call_tool_interrupt 5]\<rparr>
   \<and> interrupted_m (snd (run example_virtuals 0 (snd (interrupt (example_task True [3, 5])))))
   \<and> interrupted_m (fst (snd (running_from_thread id 0 ''worker'' bails_at_once
        (snd (interrupt (example_task True [3, 5])), ()))))"
proof -
  let ?s = "snd (interrupt (example_task True [3, 5]))"
  note first = interrupt_idempotent [where s = "example_task True [3, 5]"
      and vt = example_virtuals and th = 0 and t = 0
      and f = bails_at_once and others = id and nm = "''worker''" and w = "()"]
  have flag: "interrupted_m ?s"
    using first by blast
  have f: "\<forall>s' w'. interrupted_m s' \<longrightarrow> interrupted_m (fst (snd (bails_at_once (s', w'))))"
    by (simp add: bails_at_once_def)
  note again = interrupt_idempotent [where s = ?s and vt = example_virtuals and th = 0
      and t = 0 and f = bails_at_once and others = id and nm = "''worker''" and w = "()"]
  have a: "interrupted_m (snd (run example_virtuals 0 ?s))"
    using again example_virtuals_keep_flag flag by blast
  have b: "interrupted_m (fst (snd (running_from_thread id 0 ''worker'' bails_at_once
        (?s, ()))))"
    using again flag f by blast
  have c: "?s = (example_task True [3, 5])\<lparr>interrupted_m := True,
          events := [Call_register_task, Call_tool_interrupt 3, Call_tool_interrupt 5]\<rparr>"
    using first by (simp add: example_task_def)
  show ?thesis
    using example_virtuals_keep_flag flag a b c by simp
qed

lemma erase_first_absent: "th \<notin> tid ` set xs \<Longrightarrow> erase_first th xs = xs"
  by (induction xs) auto

lemma erase_first_tids:
  "distinct (map tid xs) \<Longrightarrow> tid ` set (erase_first th xs) = tid ` set xs - {th}"
proof (induction xs)
  case Nil
  then show ?case by simp
next
  case (Cons x xs)
  show ?case
  proof (cases "tid x = th")
    case True
    then have "th \<notin> tid ` set xs"
      using Cons.prems by auto
    then show ?thesis
      using True by auto
  next
    case False
    then show ?thesis
      using Cons by auto
  qed
qed

lemma erase_first_subset: "set (erase_first th xs) \<subseteq> set xs"
  by (induction xs) auto

lemma erase_first_distinct:
  "distinct (map tid xs) \<Longrightarrow> distinct (map tid (erase_first th xs))"
proof (induction xs)
  case Nil
  then show ?case by simp
next
  case (Cons x xs)
  then show ?case
    using erase_first_subset [of th xs] by auto
qed

lemma erase_first_snoc:
  "th \<notin> tid ` set xs \<Longrightarrow> erase_first th (xs @ [\<lparr>tid = th, cx = c\<rparr>]) = xs"
  by (induction xs) auto

lemma find_cx_snoc:
  "th \<notin> tid ` set xs \<Longrightarrow> find_cx th (xs @ [\<lparr>tid = th, cx = c\<rparr>]) = c"
  by (induction xs) auto

lemma contexts_interrupt_all:
  "contexts_m (fst (interrupt_all others (s, w))) = contexts_m s"
  by (simp add: event_facts interrupt_all_def Let_def snd_interrupt)

lemma running_from_thread_contexts:
  assumes "f (add_context_for_this_thread th nm s, w) = (r, (s', w'))"
  shows "fst (running_from_thread others th nm f (s, w)) = Inr ()
         \<and> contexts_m (fst (snd (running_from_thread others th nm f (s, w)))) =
             erase_first th (contexts_m s')"
proof (cases r)
  case (Inr u)
  then show ?thesis
    using assms by (simp add: event_facts contexts_interrupt_all running_from_thread_def remove_context_for_this_thread_def)
next
  case (Inl e)
  then show ?thesis
    using assms
    by (cases e)
      (simp_all add: event_facts contexts_interrupt_all running_from_thread_def Let_def remove_context_for_this_thread_def)
qed


lemma running_from_thread_leave:
  "running_from_thread others th nm f (s, w) =
     (case f (add_context_for_this_thread th nm s, w) of (r, sw) \<Rightarrow> leave_thread others th r sw)"
  by (simp add: running_from_thread_def leave_thread_def split: prod.splits)

lemma task_ctor_contexts:
  assumes "task_ctor thc nms g en = Some sc"
  shows "contexts_m sc = [\<lparr>tid = thc, cx = Context (name sc)\<rparr>]"
  using assms
  by (auto simp add: task_ctor_def Let_def add_context_for_this_thread_def emit_def name_def
      split: if_splits)

lemma registry_do_keeps:
  assumes "registry_do thc a (s, ws) = Some (s', ws')"
    and "distinct (map tid (contexts_m s))"
    and "tid ` set (contexts_m s) = insert thc (set ws)"
    and "distinct ws" and "thc \<notin> set ws"
  shows "distinct (map tid (contexts_m s')) \<and> tid ` set (contexts_m s') = insert thc (set ws')
         \<and> distinct ws' \<and> thc \<notin> set ws'"
proof (cases a)
  case (Thread_begins th nm)
  then have fresh: "th \<noteq> thc" "th \<notin> set ws"
    and s': "s' = add_context_for_this_thread th nm s" and ws': "ws' = th # ws"
    using assms(1) by (auto split: if_splits)
  have "th \<notin> tid ` set (contexts_m s)"
    using fresh assms(3) by simp
  then show ?thesis
    using assms(2-5) fresh by (auto simp add: s' ws' add_context_for_this_thread_def)
next
  case (Thread_ends th)
  then have at_work: "th \<in> set ws"
    and s': "s' = remove_context_for_this_thread th s" and ws': "ws' = remove1 th ws"
    using assms(1) by (auto split: if_splits)
  have "th \<noteq> thc"
    using at_work assms(5) by auto
  then have "tid ` set (erase_first th (contexts_m s)) = insert thc (set (remove1 th ws))"
    using erase_first_tids [OF assms(2), of th] assms(3,4) by auto
  then show ?thesis
    using assms(2,4,5) erase_first_distinct [OF assms(2), of th]
    by (auto simp add: s' ws' remove_context_for_this_thread_def)
qed

lemma registry_run_keeps:
  assumes "registry_run thc as (s, ws) = Some (s', ws')"
    and "distinct (map tid (contexts_m s))"
    and "tid ` set (contexts_m s) = insert thc (set ws)"
    and "distinct ws" and "thc \<notin> set ws"
  shows "distinct (map tid (contexts_m s')) \<and> tid ` set (contexts_m s') = insert thc (set ws')
         \<and> distinct ws' \<and> thc \<notin> set ws'"
  using assms
proof (induction as arbitrary: s ws)
  case Nil
  then show ?case by simp
next
  case (Cons a as)
  from Cons.prems(1) obtain s1 ws1 where
    one: "registry_do thc a (s, ws) = Some (s1, ws1)"
    and rest: "registry_run thc as (s1, ws1) = Some (s', ws')"
    by (auto split: option.splits)
  note k = registry_do_keeps [OF one Cons.prems(2-5)]
  show ?case
    using Cons.IH [OF rest] k by blast
qed

lemma registry_run_append:
  "registry_run thc (as @ bs) c =
     (case registry_run thc as c of None \<Rightarrow> None | Some c' \<Rightarrow> registry_run thc bs c')"
  by (induction as arbitrary: c) (auto split: option.splits)

lemma registry_run_still_at_work:
  assumes "registry_run thc bs (s, ws) = Some (s', ws')"
    and "th \<in> set ws" and "Thread_ends th \<notin> set bs"
  shows "th \<in> set ws'"
  using assms
proof (induction bs arbitrary: s ws)
  case Nil
  then show ?case by simp
next
  case (Cons b bs)
  from Cons.prems(1) obtain s1 ws1 where
    one: "registry_do thc b (s, ws) = Some (s1, ws1)"
    and rest: "registry_run thc bs (s1, ws1) = Some (s', ws')"
    by (auto split: option.splits)
  have "th \<in> set ws1"
  proof (cases b)
    case (Thread_begins x nm)
    then show ?thesis using one Cons.prems(2) by (auto split: if_splits)
  next
    case (Thread_ends x)
    then have "x \<noteq> th" using Cons.prems(3) by auto
    then show ?thesis using Thread_ends one Cons.prems(2) by (auto split: if_splits)
  qed
  then show ?case
    using Cons.IH [OF rest] Cons.prems(3) by simp
qed

text \<open>
  C9. At every time the registry of a task holds at most one record for each live thread:
  after the constructor and any list of actions in which started threads begin their
  work for the task and threads at work end it, no two records are of one thread, and
  the threads with a record are the constructing thread and the threads at work. A thread
  that is started and runs \<open>running_from_thread\<close> finds its record added under the given
  name; whatever other threads begin or end meanwhile and however the function on the
  thread leaves, by return, \<open>bailed\<close> or \<open>interrupted\<close>, \<open>running_from_thread\<close> returns
  without raising, its whole effect on the registry is that of the thread beginning and
  ending its work, the record of the thread is gone, and the registry holds at most one
  record for each live thread again.
\<close>

theorem registry_one_record_per_live_thread:
  assumes "task_ctor thc nms g en = Some sc"
    and "registry_run thc as (sc, []) = Some (s, ws)"
  shows "one_per_thread s \<and> tid ` set (contexts_m s) = insert thc (set ws)
       \<and> distinct ws \<and> thc \<notin> set ws
       \<and> (th \<noteq> thc \<and> th \<notin> set ws
            \<and> f (add_context_for_this_thread th nm s, w) = (r, (s', w'))
            \<and> Thread_ends th \<notin> set bs
            \<and> registry_run thc bs (add_context_for_this_thread th nm s, th # ws) = Some (sb, wb)
            \<and> contexts_m s' = contexts_m sb
          \<longrightarrow> task_cx th (add_context_for_this_thread th nm s) = Context nm
              \<and> fst (running_from_thread others th nm f (s, w)) = Inr ()
              \<and> registry_run thc (as @ Thread_begins th nm # bs @ [Thread_ends th]) (sc, []) =
                  Some (remove_context_for_this_thread th sb, remove1 th wb)
              \<and> contexts_m (fst (snd (running_from_thread others th nm f (s, w)))) =
                  contexts_m (remove_context_for_this_thread th sb)
              \<and> one_per_thread (fst (snd (running_from_thread others th nm f (s, w))))
              \<and> tid ` set (contexts_m (fst (snd (running_from_thread others th nm f (s, w))))) =
                  insert thc (set wb) - {th})"
proof -
  have start: "distinct (map tid (contexts_m sc))" "tid ` set (contexts_m sc) = insert thc (set [])"
    "distinct ([] :: thread_id list)" "thc \<notin> set []"
    using task_ctor_contexts [OF assms(1)] by simp_all
  note now = registry_run_keeps [OF assms(2) start]
  have inv: "one_per_thread s \<and> tid ` set (contexts_m s) = insert thc (set ws)
       \<and> distinct ws \<and> thc \<notin> set ws"
    using now by (simp add: one_per_thread_def)
  have bracket: "th \<noteq> thc \<and> th \<notin> set ws
            \<and> f (add_context_for_this_thread th nm s, w) = (r, (s', w'))
            \<and> Thread_ends th \<notin> set bs
            \<and> registry_run thc bs (add_context_for_this_thread th nm s, th # ws) = Some (sb, wb)
            \<and> contexts_m s' = contexts_m sb
          \<longrightarrow> task_cx th (add_context_for_this_thread th nm s) = Context nm
              \<and> fst (running_from_thread others th nm f (s, w)) = Inr ()
              \<and> registry_run thc (as @ Thread_begins th nm # bs @ [Thread_ends th]) (sc, []) =
                  Some (remove_context_for_this_thread th sb, remove1 th wb)
              \<and> contexts_m (fst (snd (running_from_thread others th nm f (s, w)))) =
                  contexts_m (remove_context_for_this_thread th sb)
              \<and> one_per_thread (fst (snd (running_from_thread others th nm f (s, w))))
              \<and> tid ` set (contexts_m (fst (snd (running_from_thread others th nm f (s, w))))) =
                  insert thc (set wb) - {th}"
  proof (intro impI, elim conjE)
    assume fresh: "th \<noteq> thc" "th \<notin> set ws"
      and f: "f (add_context_for_this_thread th nm s, w) = (r, (s', w'))"
      and no_end: "Thread_ends th \<notin> set bs"
      and during: "registry_run thc bs (add_context_for_this_thread th nm s, th # ws) = Some (sb, wb)"
      and same: "contexts_m s' = contexts_m sb"
    let ?out = "fst (snd (running_from_thread others th nm f (s, w)))"
    have absent: "th \<notin> tid ` set (contexts_m s)"
      using fresh now by simp
    have cur: "task_cx th (add_context_for_this_thread th nm s) = Context nm"
      using absent by (simp add: task_cx_def add_context_for_this_thread_def find_cx_snoc)
    have enter: "registry_do thc (Thread_begins th nm) (s, ws) =
        Some (add_context_for_this_thread th nm s, th # ws)"
      using fresh by simp
    have at_work: "th \<in> set wb"
      using registry_run_still_at_work [OF during _ no_end] by simp
    have leave: "registry_do thc (Thread_ends th) (sb, wb) =
        Some (remove_context_for_this_thread th sb, remove1 th wb)"
      using at_work by simp
    have whole: "registry_run thc (as @ Thread_begins th nm # bs @ [Thread_ends th]) (sc, []) =
        Some (remove_context_for_this_thread th sb, remove1 th wb)"
      using assms(2) enter during leave by (simp add: registry_run_append)
    note after = registry_run_keeps [OF whole start]
    note run = running_from_thread_contexts [where f = f and others = others, OF f]
    have ret: "fst (running_from_thread others th nm f (s, w)) = Inr ()"
      using run by simp
    have ctx: "contexts_m ?out = contexts_m (remove_context_for_this_thread th sb)"
      using run same by (simp add: remove_context_for_this_thread_def)
    have out_one: "one_per_thread ?out"
      using after ctx by (simp add: one_per_thread_def)
    have entered: "distinct (map tid (contexts_m (add_context_for_this_thread th nm s)))"
      "tid ` set (contexts_m (add_context_for_this_thread th nm s)) = insert thc (set (th # ws))"
      "distinct (th # ws)" "thc \<notin> set (th # ws)"
      using now fresh absent by (auto simp add: add_context_for_this_thread_def)
    note mid = registry_run_keeps [OF during entered]
    have "set (remove1 th wb) = set wb - {th}"
      using mid by simp
    then have out_tids: "tid ` set (contexts_m ?out) = insert thc (set wb) - {th}"
      using after ctx fresh(1) by auto
    show "task_cx th (add_context_for_this_thread th nm s) = Context nm
              \<and> fst (running_from_thread others th nm f (s, w)) = Inr ()
              \<and> registry_run thc (as @ Thread_begins th nm # bs @ [Thread_ends th]) (sc, []) =
                  Some (remove_context_for_this_thread th sb, remove1 th wb)
              \<and> contexts_m (fst (snd (running_from_thread others th nm f (s, w)))) =
                  contexts_m (remove_context_for_this_thread th sb)
              \<and> one_per_thread (fst (snd (running_from_thread others th nm f (s, w))))
              \<and> tid ` set (contexts_m (fst (snd (running_from_thread others th nm f (s, w))))) =
                  insert thc (set wb) - {th}"
      using cur ret whole ctx out_one out_tids by simp
  qed
  have i1: "one_per_thread s" and i2: "tid ` set (contexts_m s) = insert thc (set ws)"
    and i3: "distinct ws" and i4: "thc \<notin> set ws"
    using inv by simp_all
  show ?thesis
    by (intro conjI) (fact i1, fact i2, fact i3, fact i4, fact bracket)
qed

lemma example_schedule:
  "registry_run 0 [Thread_begins 1 ''one'', Thread_begins 2 ''two'', Thread_ends 1]
     (example_task True [], []) = Some (example_at_work, [2])"
  by (simp add: example_at_work_def example_task_def add_context_for_this_thread_def
      remove_context_for_this_thread_def)

theorem registry_one_record_per_live_thread_witness:
  "task_ctor 0 [''boost-di'', ''boostdi'', ''boost_di''] example_conf (every_task True) =
     Some (example_task True [])
   \<and> registry_run 0 [Thread_begins 1 ''one'', Thread_begins 2 ''two'', Thread_ends 1]
       (example_task True [], []) = Some (example_at_work, [2])
   \<and> one_per_thread example_at_work
   \<and> tid ` set (contexts_m example_at_work) = {0, 2}
   \<and> (3::nat) \<noteq> 0 \<and> 3 \<notin> set [2::nat]
   \<and> interrupted_at_once (add_context_for_this_thread 3 ''worker'' example_at_work, ()) =
       (Inl Interrupted, (add_context_for_this_thread 3 ''worker'' example_at_work, ()))
   \<and> Thread_ends 3 \<notin> set []
   \<and> registry_run 0 [] (add_context_for_this_thread 3 ''worker'' example_at_work, [3, 2]) =
       Some (add_context_for_this_thread 3 ''worker'' example_at_work, [3, 2])
   \<and> task_cx 3 (add_context_for_this_thread 3 ''worker'' example_at_work) = Context ''worker''
   \<and> fst (running_from_thread id 3 ''worker'' interrupted_at_once (example_at_work, ())) = Inr ()
   \<and> one_per_thread
        (fst (snd (running_from_thread id 3 ''worker'' interrupted_at_once (example_at_work, ()))))
   \<and> tid ` set (contexts_m
        (fst (snd (running_from_thread id 3 ''worker'' interrupted_at_once (example_at_work, ())))))
       = {0, 2}"
proof -
  note h1 = example_task_constructed [of True]
  note h2 = example_schedule
  have fresh: "(3::nat) \<noteq> 0 \<and> 3 \<notin> set [2::nat]" by simp
  have f: "interrupted_at_once (add_context_for_this_thread 3 ''worker'' example_at_work, ()) =
       (Inl Interrupted, (add_context_for_this_thread 3 ''worker'' example_at_work, ()))"
    by (simp add: interrupted_at_once_def)
  have no_end: "Thread_ends 3 \<notin> set []" by simp
  have during: "registry_run 0 [] (add_context_for_this_thread 3 ''worker'' example_at_work, [3, 2]) =
       Some (add_context_for_this_thread 3 ''worker'' example_at_work, [3, 2])"
    by simp
  note w = registry_one_record_per_live_thread [OF h1 h2, where th = 3 and nm = "''worker''"
      and f = interrupted_at_once and w = "()" and r = "Inl Interrupted"
      and s' = "add_context_for_this_thread 3 ''worker'' example_at_work" and w' = "()"
      and bs = "[]" and sb = "add_context_for_this_thread 3 ''worker'' example_at_work"
      and wb = "[3, 2]" and others = id]
  have inv1: "one_per_thread example_at_work"
    by (rule w [THEN conjunct1])
  have "tid ` set (contexts_m example_at_work) = insert 0 (set [2])"
    by (rule w [THEN conjunct2, THEN conjunct1])
  then have inv2: "tid ` set (contexts_m example_at_work) = {0, 2}"
    by simp
  have prem: "(3::nat) \<noteq> 0 \<and> 3 \<notin> set [2::nat]
     \<and> interrupted_at_once (add_context_for_this_thread 3 ''worker'' example_at_work, ()) =
         (Inl Interrupted, (add_context_for_this_thread 3 ''worker'' example_at_work, ()))
     \<and> Thread_ends 3 \<notin> set []
     \<and> registry_run 0 [] (add_context_for_this_thread 3 ''worker'' example_at_work, [3, 2]) =
         Some (add_context_for_this_thread 3 ''worker'' example_at_work, [3, 2])
     \<and> contexts_m (add_context_for_this_thread 3 ''worker'' example_at_work) =
         contexts_m (add_context_for_this_thread 3 ''worker'' example_at_work)"
    using fresh f no_end during by (intro conjI) simp_all
  note res = mp [OF w [THEN conjunct2, THEN conjunct2, THEN conjunct2, THEN conjunct2] prem]
  have a1: "task_cx 3 (add_context_for_this_thread 3 ''worker'' example_at_work) = Context ''worker''"
    by (rule res [THEN conjunct1])
  have a2: "fst (running_from_thread id 3 ''worker'' interrupted_at_once (example_at_work, ())) = Inr ()"
    by (rule res [THEN conjunct2, THEN conjunct1])
  have a3: "one_per_thread
        (fst (snd (running_from_thread id 3 ''worker'' interrupted_at_once (example_at_work, ()))))"
    by (rule res [THEN conjunct2, THEN conjunct2, THEN conjunct2, THEN conjunct2, THEN conjunct1])
  have "tid ` set (contexts_m
        (fst (snd (running_from_thread id 3 ''worker'' interrupted_at_once (example_at_work, ())))))
       = insert 0 (set [3, 2]) - {3}"
    by (rule res [THEN conjunct2, THEN conjunct2, THEN conjunct2, THEN conjunct2, THEN conjunct2])
  moreover have "insert (0::nat) (set [3, 2]) - {3} = {0, 2}" by auto
  ultimately have a4: "tid ` set (contexts_m
        (fst (snd (running_from_thread id 3 ''worker'' interrupted_at_once (example_at_work, ())))))
       = {0, 2}"
    by simp
  show ?thesis
    by (intro conjI) (fact h1, fact h2, fact inv1, fact inv2, simp, simp, fact f, simp, fact during,
      fact a1, fact a2, fact a3, fact a4)
qed

section \<open>Properties of the parallel group\<close>

lemma child_runs_append: "child_runs (xs @ ys) = child_runs xs @ child_runs ys"
  by (induction xs rule: child_runs.induct) simp_all

lemma child_runs_tool_interrupts: "child_runs (map Call_tool_interrupt ts) = []"
  by (induction ts) simp_all

lemma child_runs_interrupt_all:
  "child_runs (events (fst (interrupt_all others (s, w)))) = child_runs (events s)"
  by (simp add: interrupt_all_def Let_def snd_interrupt emit_def child_runs_append
      child_runs_tool_interrupts)


lemma child_runs_leave_thread:
  "child_runs (events (fst (snd (leave_thread others th r (s, w))))) = child_runs (events s)"
proof (cases r)
  case (Inr u)
  then show ?thesis
    by (simp add: leave_thread_def remove_context_for_this_thread_def)
next
  case (Inl e)
  then show ?thesis
    by (cases e)
      (simp_all add: leave_thread_def Let_def remove_context_for_this_thread_def
        child_runs_interrupt_all emit_def child_runs_append)
qed

lemma children_leave_thread:
  "snd (snd (leave_thread (map g) th r (s, cs))) = (if r = Inl Bailed then map g cs else cs)"
proof (cases r)
  case (Inr u)
  then show ?thesis by (simp add: leave_thread_def)
next
  case (Inl e)
  then show ?thesis
    by (cases e) (simp_all add: leave_thread_def Let_def interrupt_all_def)
qed

lemma thread_step_shape:
  assumes "thread_step ops new_tid i (p, prog) = Some (p', prog')"
  shows "i < length prog \<and> i < length (children_m p) \<and> prog ! i \<noteq> Finished
         \<and> length (children_m p') = length (children_m p)
         \<and> (\<exists>x. prog' = prog[i := x] \<and> steps_done x = Suc (steps_done (prog ! i)))"
proof -
  have i: "i < length prog" "i < length (children_m p)"
    using assms by (auto simp add: thread_step_def split: if_splits)
  show ?thesis
  proof (cases "prog ! i")
    case Not_begun
    then show ?thesis using assms i by (auto simp add: thread_step_def)
  next
    case At_work
    then show ?thesis using assms i by (auto simp add: thread_step_def split: prod.splits)
  next
    case (Ran r)
    obtain u b cs where l: "leave_thread (map (c_interrupt ops)) (new_tid i) r
        (base p, children_m p) = (u, (b, cs))"
      by (metis prod.exhaust)
    have "cs = (if r = Inl Bailed then map (c_interrupt ops) (children_m p) else children_m p)"
      using children_leave_thread [of "c_interrupt ops" "new_tid i" r "base p" "children_m p"] l
      by simp
    then have "length cs = length (children_m p)"
      by simp
    then show ?thesis using assms i Ran l by (auto simp add: thread_step_def)
  next
    case Finished
    then show ?thesis using assms i by (simp add: thread_step_def)
  qed
qed

lemma thread_step_possible:
  assumes "i < length prog" and "i < length (children_m p)" and "prog ! i \<noteq> Finished"
  shows "\<exists>c'. thread_step ops new_tid i (p, prog) = Some c'"
  using assms
  by (cases "prog ! i") (auto simp add: thread_step_def split: prod.splits)

lemma child_driven_interrupt:
  assumes "child_driven ops new_tid cs0 i prg c"
  shows "child_driven ops new_tid cs0 i prg (c_interrupt ops c)"
proof (cases "has_run prg")
  case True
  then obtain k1 k2 where
    "c = (c_interrupt ops ^^ k2) (snd (c_run ops (new_tid i) ((c_interrupt ops ^^ k1) (cs0 ! i))))"
    using assms by (auto simp add: child_driven_def)
  then have "c_interrupt ops c =
      (c_interrupt ops ^^ Suc k2) (snd (c_run ops (new_tid i) ((c_interrupt ops ^^ k1) (cs0 ! i))))"
    by simp
  then show ?thesis
    using True unfolding child_driven_def by (simp del: funpow.simps) blast
next
  case False
  then obtain k where "c = (c_interrupt ops ^^ k) (cs0 ! i)"
    using assms by (auto simp add: child_driven_def)
  then have "c_interrupt ops c = (c_interrupt ops ^^ Suc k) (cs0 ! i)"
    by simp
  then show ?thesis
    using False unfolding child_driven_def by (simp del: funpow.simps) blast
qed

lemma child_driven_run:
  assumes "child_driven ops new_tid cs0 i prg c" and "\<not> has_run prg"
  shows "child_driven ops new_tid cs0 i (Ran r) (snd (c_run ops (new_tid i) c))"
proof -
  obtain k where "c = (c_interrupt ops ^^ k) (cs0 ! i)"
    using assms by (auto simp add: child_driven_def)
  then have "\<exists>k1 k2. snd (c_run ops (new_tid i) c) =
      (c_interrupt ops ^^ k2) (snd (c_run ops (new_tid i) ((c_interrupt ops ^^ k1) (cs0 ! i))))"
    by (intro exI [of _ k] exI [of _ 0]) simp
  then show ?thesis
    by (simp add: child_driven_def)
qed

lemma child_driven_phase:
  assumes "child_driven ops new_tid cs0 i prg c" and "has_run prg' = has_run prg"
  shows "child_driven ops new_tid cs0 i prg' c"
  using assms by (simp add: child_driven_def)

lemma thread_step_driven:
  assumes "thread_step ops new_tid i (p, prog) = Some (p', prog')"
    and "driven ops new_tid cs0 (p, prog)"
  shows "driven ops new_tid cs0 (p', prog')"
proof -
  have len: "length (children_m p) = length cs0" "length prog = length cs0"
    and all: "\<And>j. j < length cs0 \<Longrightarrow> child_driven ops new_tid cs0 j (prog ! j) (children_m p ! j)"
    using assms(2) by (auto simp add: driven_def)
  have i: "i < length cs0"
    using thread_step_shape [OF assms(1)] len by simp
  show ?thesis
  proof (cases "prog ! i")
    case Not_begun
    then have p': "children_m p' = children_m p" and prog': "prog' = prog[i := At_work]"
      using assms(1) i len by (auto simp add: thread_step_def)
    have "child_driven ops new_tid cs0 j (prog' ! j) (children_m p' ! j)" if "j < length cs0" for j
    proof (cases "j = i")
      case True
      then show ?thesis
        using all [OF that] Not_begun len that
        by (auto simp add: p' prog' intro: child_driven_phase)
    next
      case False
      then show ?thesis using all [OF that] by (simp add: p' prog')
    qed
    then show ?thesis
      using len by (simp add: driven_def p' prog')
  next
    case At_work
    obtain r c' where cr: "c_run ops (new_tid i) (children_m p ! i) = (r, c')"
      by (cases "c_run ops (new_tid i) (children_m p ! i)")
    have p': "children_m p' = (children_m p)[i := c']" and prog': "prog' = prog[i := Ran r]"
      using assms(1) i len At_work cr by (auto simp add: thread_step_def)
    have "child_driven ops new_tid cs0 j (prog' ! j) (children_m p' ! j)" if "j < length cs0" for j
    proof (cases "j = i")
      case True
      have "child_driven ops new_tid cs0 i (Ran r) (snd (c_run ops (new_tid i) (children_m p ! i)))"
        using all [OF i] At_work by (intro child_driven_run [where prg = At_work]) simp_all
      then show ?thesis
        using True cr len that by (simp add: p' prog')
    next
      case False
      then show ?thesis using all [OF that] by (simp add: p' prog')
    qed
    then show ?thesis
      using len by (simp add: driven_def p' prog')
  next
    case (Ran r)
    obtain u b cs where l: "leave_thread (map (c_interrupt ops)) (new_tid i) r
        (base p, children_m p) = (u, (b, cs))"
      by (metis prod.exhaust)
    have cs: "cs = (if r = Inl Bailed then map (c_interrupt ops) (children_m p) else children_m p)"
      using children_leave_thread [of "c_interrupt ops" "new_tid i" r "base p" "children_m p"] l
      by simp
    have p': "children_m p' = cs" and prog': "prog' = prog[i := Finished]"
      using assms(1) i len Ran l by (auto simp add: thread_step_def)
    have "child_driven ops new_tid cs0 j (prog' ! j) (children_m p' ! j)" if "j < length cs0" for j
    proof -
      have ph: "has_run (prog' ! j) = has_run (prog ! j)"
        using Ran len that by (cases "j = i") (simp_all add: prog')
      have "child_driven ops new_tid cs0 j (prog ! j) (children_m p' ! j)"
        using all [OF that] len that
        by (auto simp add: p' cs intro: child_driven_interrupt)
      then show ?thesis
        using ph by (rule child_driven_phase)
    qed
    then show ?thesis
      using len by (simp add: driven_def p' prog' cs)
  next
    case Finished
    then show ?thesis
      using thread_step_shape [OF assms(1)] by simp
  qed
qed

lemma has_run_same:
  assumes "i < length prog" and "has_run x = has_run (prog ! i)"
  shows "has_run (prog[i := x] ! j) = has_run (prog ! j)"
  using assms by (cases "j = i") simp_all

lemma has_run_new:
  assumes "i < length prog" and "length prog = n" and "has_run x"
  shows "{j. j < n \<and> has_run (prog[i := x] ! j)} = insert i {j. j < n \<and> has_run (prog ! j)}"
  using assms by (auto simp add: nth_list_update)

lemma thread_step_noted:
  assumes "thread_step ops new_tid i (p, prog) = Some (p', prog')"
    and "runs_noted evs n (p, prog)" and "length prog = n"
  shows "runs_noted evs n (p', prog')"
proof -
  obtain order where ord: "child_runs (events (base p)) = child_runs evs @ order"
    "distinct order" "set order = {j. j < n \<and> has_run (prog ! j)}"
    using assms(2) unfolding runs_noted_def by auto
  have i: "i < length prog" "i < length (children_m p)"
    using thread_step_shape [OF assms(1)] by simp_all
  show ?thesis
  proof (cases "prog ! i")
    case Not_begun
    then have ev: "events (base p') = events (base p)" and prog': "prog' = prog[i := At_work]"
      using assms(1) i by (auto simp add: thread_step_def add_context_for_this_thread_def)
    have "has_run (prog' ! j) = has_run (prog ! j)" for j
      unfolding prog' using i(1) Not_begun by (intro has_run_same) simp_all
    then have "child_runs (events (base p')) = child_runs evs @ order
        \<and> distinct order \<and> set order = {j. j < n \<and> has_run (prog' ! j)}"
      using ord ev by simp
    then show ?thesis
      unfolding runs_noted_def by blast
  next
    case At_work
    obtain r c' where cr: "c_run ops (new_tid i) (children_m p ! i) = (r, c')"
      by (cases "c_run ops (new_tid i) (children_m p ! i)")
    have ev: "events (base p') = events (base p) @ [Call_child_run i]"
      and prog': "prog' = prog[i := Ran r]"
      using assms(1) i At_work cr by (auto simp add: thread_step_def emit_def)
    have new: "i \<notin> set order"
      using ord(3) At_work by simp
    have "{j. j < n \<and> has_run (prog' ! j)} = insert i {j. j < n \<and> has_run (prog ! j)}"
      unfolding prog' using i(1) assms(3) by (intro has_run_new) simp_all
    then have "child_runs (events (base p')) = child_runs evs @ (order @ [i])
        \<and> distinct (order @ [i]) \<and> set (order @ [i]) = {j. j < n \<and> has_run (prog' ! j)}"
      using ord new by (simp add: ev child_runs_append)
    then show ?thesis
      unfolding runs_noted_def by blast
  next
    case (Ran r)
    obtain u b cs where l: "leave_thread (map (c_interrupt ops)) (new_tid i) r
        (base p, children_m p) = (u, (b, cs))"
      by (metis prod.exhaust)
    have bp: "base p' = b" and prog': "prog' = prog[i := Finished]"
      using assms(1) i Ran l by (auto simp add: thread_step_def)
    have ev: "child_runs (events (base p')) = child_runs (events (base p))"
      using child_runs_leave_thread [of "map (c_interrupt ops)" "new_tid i" r "base p" "children_m p"] l
      by (simp add: bp)
    have "has_run (prog' ! j) = has_run (prog ! j)" for j
      unfolding prog' using i(1) Ran by (intro has_run_same) simp_all
    then have "child_runs (events (base p')) = child_runs evs @ order
        \<and> distinct order \<and> set order = {j. j < n \<and> has_run (prog' ! j)}"
      using ord ev by simp
    then show ?thesis
      unfolding runs_noted_def by blast
  next
    case Finished
    then show ?thesis
      using thread_step_shape [OF assms(1)] by simp
  qed
qed

lemma run_threads_keeps:
  assumes "run_threads ops new_tid sched c = Some c'"
    and "driven ops new_tid cs0 c" and "runs_noted evs (length cs0) c"
  shows "driven ops new_tid cs0 c' \<and> runs_noted evs (length cs0) c'"
  using assms
proof (induction sched arbitrary: c)
  case Nil
  then show ?case by simp
next
  case (Cons i sched)
  obtain p prog where c: "c = (p, prog)" by (cases c)
  from Cons.prems(1) obtain p1 prog1 where
    one: "thread_step ops new_tid i (p, prog) = Some (p1, prog1)"
    and rest: "run_threads ops new_tid sched (p1, prog1) = Some c'"
    by (auto simp add: c split: option.splits)
  have len: "length prog = length cs0"
    using Cons.prems(2) by (simp add: c driven_def)
  have d: "driven ops new_tid cs0 (p1, prog1)"
    using thread_step_driven [OF one] Cons.prems(2) by (simp add: c)
  have n: "runs_noted evs (length cs0) (p1, prog1)"
    using thread_step_noted [OF one _ len] Cons.prems(3) by (simp add: c)
  show ?case
    by (rule Cons.IH [OF rest d n])
qed

lemma steps_done_three: "steps_done x = 3 \<longleftrightarrow> x = Finished"
  by (cases x) simp_all

lemma run_threads_complete:
  assumes "length (children_m p) = n" and "length prog = n"
    and "\<forall>i\<in>set sched. i < n"
    and "\<forall>i<n. steps_done (prog ! i) + count_list sched i = 3"
  shows "\<exists>p' prog'. run_threads ops new_tid sched (p, prog) = Some (p', prog')
           \<and> length prog' = n \<and> (\<forall>i<n. prog' ! i = Finished)"
  using assms
proof (induction sched arbitrary: p prog)
  case Nil
  then show ?case by (simp add: steps_done_three)
next
  case (Cons i sched)
  have i: "i < n" using Cons.prems(3) by simp
  have "steps_done (prog ! i) + count_list (i # sched) i = 3"
    using Cons.prems(4) i by blast
  then have "steps_done (prog ! i) \<noteq> 3" by simp
  then have "prog ! i \<noteq> Finished" by (simp add: steps_done_three)
  then obtain c1 where "thread_step ops new_tid i (p, prog) = Some c1"
    using thread_step_possible [of i prog p ops new_tid] i Cons.prems(1,2) by auto
  then obtain p1 prog1 where one: "thread_step ops new_tid i (p, prog) = Some (p1, prog1)"
    by (cases c1) simp
  note shape = thread_step_shape [OF one]
  then obtain x where x: "prog1 = prog[i := x]" "steps_done x = Suc (steps_done (prog ! i))"
    by blast
  have l1: "length (children_m p1) = n" "length prog1 = n"
    using shape Cons.prems(1,2) x by simp_all
  have s1: "\<forall>j\<in>set sched. j < n" using Cons.prems(3) by simp
  have c1: "\<forall>j<n. steps_done (prog1 ! j) + count_list sched j = 3"
  proof (intro allI impI)
    fix j assume j: "j < n"
    have all: "steps_done (prog ! j) + count_list (i # sched) j = 3"
      using Cons.prems(4) j by blast
    show "steps_done (prog1 ! j) + count_list sched j = 3"
    proof (cases "j = i")
      case True
      then show ?thesis using all x i Cons.prems(2) by simp
    next
      case False
      then show ?thesis using all x by simp
    qed
  qed
  show ?case
    using Cons.IH [OF l1 s1 c1] one by simp
qed

lemma fold_push_threads:
  "fold (\<lambda>i p. p\<lparr>threads_m := threads_m p @ [f i]\<rparr>) xs p =
     p\<lparr>threads_m := threads_m p @ map f xs\<rparr>"
  by (induction xs arbitrary: p) simp_all

lemma start_threads_eq:
  "start_threads new_tid p =
     p\<lparr>threads_m := threads_m p @ map new_tid [0..<length (children_m p)]\<rparr>"
  by (simp add: start_threads_def fold_push_threads)

text \<open>
  The three steps of a thread, taken one after the other, are \<open>running_from_thread\<close> of
  the group with the child's name and the child's \<open>run\<close>, as the body of the thread in
  \<open>parallel_tasks::run\<close> has it.
\<close>

lemma thread_body_is_running_from_thread:
  assumes "i < length (children_m p)" and "length prog = length (children_m p)"
    and "prog ! i = Not_begun"
  shows "run_threads ops new_tid [i, i, i] (p, prog) =
           (case running_from_thread (map (c_interrupt ops)) (new_tid i)
                   (c_name ops (children_m p ! i))
                   (\<lambda>(b, cs). case c_run ops (new_tid i) (cs ! i) of
                                 (r, c') \<Rightarrow> (r, (emit (Call_child_run i) b, cs[i := c'])))
                   (base p, children_m p) of
              (u, (b, cs)) \<Rightarrow> Some (p\<lparr>base := b, children_m := cs\<rparr>, prog[i := Finished]))"
proof -
  obtain r c' where cr: "c_run ops (new_tid i) (children_m p ! i) = (r, c')"
    by (cases "c_run ops (new_tid i) (children_m p ! i)")
  let ?b = "emit (Call_child_run i)
              (add_context_for_this_thread (new_tid i) (c_name ops (children_m p ! i)) (base p))"
  obtain u b cs where l: "leave_thread (map (c_interrupt ops)) (new_tid i) r
      (?b, (children_m p)[i := c']) = (u, (b, cs))"
    by (metis prod.exhaust)
  have "run_threads ops new_tid [i, i, i] (p, prog) =
      Some (p\<lparr>base := b, children_m := cs\<rparr>, prog[i := Finished])"
    using assms cr l by (simp add: thread_step_def)
  moreover have "running_from_thread (map (c_interrupt ops)) (new_tid i)
                   (c_name ops (children_m p ! i))
                   (\<lambda>(b, cs). case c_run ops (new_tid i) (cs ! i) of
                                 (r, c') \<Rightarrow> (r, (emit (Call_child_run i) b, cs[i := c'])))
                   (base p, children_m p) = (u, (b, cs))"
    using cr l by (simp add: running_from_thread_leave)
  ultimately show ?thesis by simp
qed

text \<open>
  C10. \<open>enabled()\<close> of a parallel group is true in every state, whatever the
  configuration says, and its \<open>run\<close> does not ask. Under every schedule in which each
  started thread takes its steps, \<open>run\<close> returns without raising and with no thread left to
  join; \<open>run\<close> of every child has been called exactly once, in an order that the
  schedule decides; the children are as many as before, and each child is what its own \<open>run\<close> made
  of it, apart from the interrupts that the handlers of bailing siblings broadcast before
  and after.
\<close>

theorem parallel_tasks_always_run:
  "parallel_tasks_enabled p
   \<and> parallel_tasks_enabled (p\<lparr>base := (base p)\<lparr>conf_global := g, conf_task_enabled := en\<rparr>\<rparr>)
   \<and> (complete_schedule (length (children_m p)) sched \<longrightarrow>
        (\<exists>p' order.
           parallel_tasks_run ops new_tid sched p = Some (Inr (), p')
           \<and> length (children_m p') = length (children_m p)
           \<and> threads_m p' = []
           \<and> child_runs (events (base p')) = child_runs (events (base p)) @ order
           \<and> distinct order \<and> set order = {0..<length (children_m p)}
           \<and> (\<forall>i<length (children_m p).
                \<exists>k1 k2. children_m p' ! i =
                  (c_interrupt ops ^^ k2)
                    (snd (c_run ops (new_tid i) ((c_interrupt ops ^^ k1) (children_m p ! i)))))))"
proof (intro conjI impI)
  show "parallel_tasks_enabled p"
    by (simp add: parallel_tasks_enabled_def)
  show "parallel_tasks_enabled (p\<lparr>base := (base p)\<lparr>conf_global := g, conf_task_enabled := en\<rparr>\<rparr>)"
    by (simp add: parallel_tasks_enabled_def)
next
  assume cs: "complete_schedule (length (children_m p)) sched"
  let ?n = "length (children_m p)"
  let ?p = "start_threads new_tid p"
  let ?c = "(?p, replicate ?n Not_begun)"
  have same: "children_m ?p = children_m p" "base ?p = base p"
    by (simp_all add: start_threads_eq)
  have in_range: "\<forall>i\<in>set sched. i < ?n"
    using cs by (simp add: complete_schedule_def list_all_iff)
  have thrice: "\<forall>i<?n. steps_done (replicate ?n Not_begun ! i) + count_list sched i = 3"
    using cs by (simp add: complete_schedule_def list_all_iff)
  obtain p1 prog1 where run: "run_threads ops new_tid sched ?c = Some (p1, prog1)"
    and len1: "length prog1 = ?n" and fin: "\<forall>i<?n. prog1 ! i = Finished"
    using run_threads_complete [of ?p ?n "replicate ?n Not_begun" sched ops new_tid]
      same in_range thrice by auto
  have d0: "driven ops new_tid (children_m p) ?c"
  proof -
    have "\<exists>k. children_m p ! i = (c_interrupt ops ^^ k) (children_m p ! i)" for i
      by (rule exI [of _ 0]) simp
    then show ?thesis
      by (simp add: driven_def child_driven_def same)
  qed
  have n0: "runs_noted (events (base p)) ?n ?c"
    by (simp add: runs_noted_def same)
  note kept = run_threads_keeps [OF run d0 n0]
  have all_fin: "list_all (\<lambda>x. x = Finished) prog1"
    using fin len1 by (simp add: list_all_length)
  have res: "parallel_tasks_run ops new_tid sched p = Some (Inr (), join_threads p1)"
    using run all_fin by (simp add: parallel_tasks_run_def Let_def same)
  obtain order where ord: "child_runs (events (base p1)) = child_runs (events (base p)) @ order"
    "distinct order" "set order = {j. j < ?n \<and> has_run (prog1 ! j)}"
    using kept by (auto simp add: runs_noted_def)
  have set_ord: "set order = {0..<?n}"
    using ord(3) fin by auto
  have len: "length (children_m p1) = ?n"
    using kept by (simp add: driven_def)
  have each: "\<forall>i<?n. \<exists>k1 k2. children_m p1 ! i =
      (c_interrupt ops ^^ k2)
        (snd (c_run ops (new_tid i) ((c_interrupt ops ^^ k1) (children_m p ! i))))"
  proof (intro allI impI)
    fix i assume i: "i < ?n"
    have "child_driven ops new_tid (children_m p) i (prog1 ! i) (children_m p1 ! i)"
      using kept i by (simp add: driven_def)
    then show "\<exists>k1 k2. children_m p1 ! i =
      (c_interrupt ops ^^ k2)
        (snd (c_run ops (new_tid i) ((c_interrupt ops ^^ k1) (children_m p ! i))))"
      using fin i by (simp add: child_driven_def)
  qed
  show "\<exists>p' order.
           parallel_tasks_run ops new_tid sched p = Some (Inr (), p')
           \<and> length (children_m p') = length (children_m p)
           \<and> threads_m p' = []
           \<and> child_runs (events (base p')) = child_runs (events (base p)) @ order
           \<and> distinct order \<and> set order = {0..<length (children_m p)}
           \<and> (\<forall>i<length (children_m p).
                \<exists>k1 k2. children_m p' ! i =
                  (c_interrupt ops ^^ k2)
                    (snd (c_run ops (new_tid i) ((c_interrupt ops ^^ k1) (children_m p ! i)))))"
  proof (intro exI [of _ "join_threads p1"] exI [of _ order] conjI)
    show "parallel_tasks_run ops new_tid sched p = Some (Inr (), join_threads p1)"
      by (rule res)
    show "length (children_m (join_threads p1)) = length (children_m p)"
      using len by (simp add: join_threads_def)
    show "threads_m (join_threads p1) = []"
      by (simp add: join_threads_def)
    show "child_runs (events (base (join_threads p1))) = child_runs (events (base p)) @ order"
      using ord(1) by (simp add: join_threads_def)
    show "distinct order" by (rule ord(2))
    show "set order = {0..<length (children_m p)}" by (rule set_ord)
    show "\<forall>i<length (children_m p).
                \<exists>k1 k2. children_m (join_threads p1) ! i =
                  (c_interrupt ops ^^ k2)
                    (snd (c_run ops (new_tid i) ((c_interrupt ops ^^ k1) (children_m p ! i))))"
      using each by (simp add: join_threads_def)
  qed
qed

theorem parallel_tasks_always_run_witness:
  "complete_schedule (length (children_m example_group)) [1, 0, 1, 0, 0, 1]
   \<and> \<not> enabled (base example_group) \<and> parallel_tasks_enabled example_group
   \<and> parallel_tasks_run (task_child_ops example_virtuals) Suc [1, 0, 1, 0, 0, 1] example_group
       \<noteq> None
   \<and> observe_run
        (parallel_tasks_run (task_child_ops example_virtuals) Suc [1, 0, 1, 0, 0, 1] example_group) =
       Some (Inr (), [1, 0], [],
         [[Call_register_task,
           Log (Context ''?'') L_info R_generic ''running task'',
           Log (Context ''?'') L_info R_rebuild ''cleaning (redownload|rebuild)'',
           Call_do_clean 9, Log (Context ''?'') L_info R_generic ''fetching'',
           Call_do_fetch,
           Log (Context ''?'') L_info R_generic ''build and install'',
           Call_do_build_and_install],
          [Call_register_task,
           Log (Context ''?'') L_debug R_generic ''task is disabled'']])"
proof -
  have sched: "complete_schedule (length (children_m example_group)) [1, 0, 1, 0, 0, 1]"
    by (simp add: complete_schedule_def example_group_def)
  note run = parallel_tasks_always_run [where p = example_group and sched = "[1, 0, 1, 0, 0, 1]"
      and ops = "task_child_ops example_virtuals" and new_tid = Suc and g = example_conf
      and en = "every_task False", THEN conjunct2, THEN conjunct2, THEN mp, OF sched]
  have returns: "parallel_tasks_run (task_child_ops example_virtuals) Suc [1, 0, 1, 0, 0, 1]
      example_group \<noteq> None"
    using run by auto
  have off: "\<not> enabled (base example_group)"
    by (simp add: enabled_def example_group_def every_task_def)
  have on: "parallel_tasks_enabled example_group"
    by (rule parallel_tasks_always_run [where p = example_group and sched = "[1, 0, 1, 0, 0, 1]"
      and ops = "task_child_ops example_virtuals" and new_tid = Suc and g = example_conf
      and en = "every_task False", THEN conjunct1])
  have seen: "observe_run
        (parallel_tasks_run (task_child_ops example_virtuals) Suc [1, 0, 1, 0, 0, 1] example_group) =
       Some (Inr (), [1, 0], [],
         [[Call_register_task,
           Log (Context ''?'') L_info R_generic ''running task'',
           Log (Context ''?'') L_info R_rebuild ''cleaning (redownload|rebuild)'',
           Call_do_clean 9, Log (Context ''?'') L_info R_generic ''fetching'',
           Call_do_fetch,
           Log (Context ''?'') L_info R_generic ''build and install'',
           Call_do_build_and_install],
          [Call_register_task,
           Log (Context ''?'') L_debug R_generic ''task is disabled'']])"
    by code_simp
  show ?thesis
    by (intro conjI) (fact sched, fact off, fact on, fact returns, fact seen)
qed

end
